theory Spec2Isabelle
  imports
    Main
    "HOL-Library.Sublist"
    "HOL-Library.Char_ord"
    "HOL-Library.List_Lexorder"
begin

section \<open>Strings and the two link predicates of \<^verbatim>\<open>regscraper.py\<close>\<close>

text \<open>
  Link texts, hrefs and URLs are \<open>string\<close>s: the UTF-8 bytes of Python's \<^verbatim>\<open>str\<close>. The
  search for an ASCII pattern, \<^verbatim>\<open>endswith\<close> and \<^verbatim>\<open>replace\<close> with an ASCII pattern, and
  equality give on the bytes what they give on the text.

  \<^verbatim>\<open>str.upper()\<close> follows the Unicode case mapping (it maps U+017F to \<^verbatim>\<open>S\<close> and U+00DF
  to \<^verbatim>\<open>SS\<close>, for instance) and is not written out: it is the parameter \<open>upper\<close> of
  \<open>is_reserved_or_repealed\<close> and of every function that calls it, and what is proved
  below is proved for every \<open>upper\<close>. On a text of ASCII characters \<^verbatim>\<open>str.upper()\<close> is
  \<open>ascii_upper\<close>: the letters \<^verbatim>\<open>a\<close> to \<^verbatim>\<open>z\<close> go to \<^verbatim>\<open>A\<close> to \<^verbatim>\<open>Z\<close> and nothing else changes.
  The example sites, whose link texts are ASCII, are evaluated with it.
\<close>

definition ascii_upper_char :: "char \<Rightarrow> char" where
  "ascii_upper_char c =
     (let n = (of_char c :: nat) in if 97 \<le> n \<and> n \<le> 122 then char_of (n - 32) else c)"

definition ascii_upper :: "string \<Rightarrow> string" where
  "ascii_upper s = map ascii_upper_char s"

text \<open>\<open>contains sub s\<close> is Python's \<^verbatim>\<open>sub in s\<close> on strings.\<close>

primrec contains :: "'a list \<Rightarrow> 'a list \<Rightarrow> bool" where
  "contains sub [] = (sub = [])"
| "contains sub (c # cs) = (prefix sub (c # cs) \<or> contains sub cs)"

definition endswith :: "'a list \<Rightarrow> 'a list \<Rightarrow> bool" where
  "endswith s suf = suffix suf s"

text \<open>\<^verbatim>\<open>href.replace("://", "")\<close>: every occurrence, left to right, not overlapping.\<close>

fun remove_scheme_sep :: "string \<Rightarrow> string" where
  "remove_scheme_sep (a # b # c # rest) =
     (if a = CHR '':'' \<and> b = CHR ''/'' \<and> c = CHR ''/''
      then remove_scheme_sep rest
      else a # remove_scheme_sep (b # c # rest))"
| "remove_scheme_sep s = s"

definition is_reserved_or_repealed :: "(string \<Rightarrow> string) \<Rightarrow> string \<Rightarrow> bool" where
  "is_reserved_or_repealed upper text =
     (let text_upper = upper text
      in contains ''(REPEALED)'' text_upper \<or> contains ''(RESERVED)'' text_upper
         \<or> contains ''RESERVED'' text_upper)"

text \<open>
  The malformed-href test that \<^verbatim>\<open>scrape_branch\<close> (line 534) and the verifier
  (lines 72 and 117) write inline.
\<close>

definition malformed_href :: "string \<Rightarrow> bool" where
  "malformed_href href =
     (endswith href ''//'' \<or> contains ''//'' (remove_scheme_sep href))"

section \<open>Data model\<close>

text \<open>A link of a navigation region: \<^verbatim>\<open>{"text": ..., "href": ...}\<close>.\<close>

record link =
  link_text :: string
  href :: string

text \<open>
  A persisted record, reduced to the two fields the crawl engine and the verifier
  read: the source URL (key \<^verbatim>\<open>url\<close>) and the LexPath. Path elements are Python ints.
\<close>

record regulation =
  reg_url :: string
  lex_path :: "int list"

section \<open>The verifier's pure checks (\<^verbatim>\<open>validate_regs.py\<close>)\<close>

text \<open>
  Python's \<^verbatim>\<open>a > b\<close> on lists: the first position where the items differ decides;
  if there is none, the longer list is the greater.
\<close>

fun py_list_gt :: "'a::linorder list \<Rightarrow> 'a list \<Rightarrow> bool" where
  "py_list_gt (x # xs) (y # ys) = (if x = y then py_list_gt xs ys else x > y)"
| "py_list_gt (x # xs) [] = True"
| "py_list_gt [] ys = False"

text \<open>
  The spec's total order on LexPaths: element-wise, and a strict prefix sorts before
  its extensions.
\<close>

definition lexpath_less :: "'a::linorder list \<Rightarrow> 'a list \<Rightarrow> bool" where
  "lexpath_less p q =
     (strict_prefix p q \<or>
      (\<exists>i. i < length p \<and> i < length q \<and> take i p = take i q \<and> p ! i < q ! i))"

text \<open>
  An issue stands for the message
  \<^verbatim>\<open>Out of order at record {i}: {prev_path} > {current_path}\<close>.
\<close>

type_synonym issue = "nat \<times> int list \<times> int list"

fun order_loop :: "nat \<Rightarrow> int list option \<Rightarrow> regulation list \<Rightarrow> issue list \<Rightarrow> issue list" where
  "order_loop i prev_path [] issues = issues"
| "order_loop i prev_path (r # rs) issues =
     (let current_path = lex_path r;
          issues' = (case prev_path of
                       None \<Rightarrow> issues
                     | Some p \<Rightarrow> if py_list_gt p current_path
                                then issues @ [(i, p, current_path)] else issues)
      in order_loop (Suc i) (Some current_path) rs issues')"

definition validate_section_order :: "regulation list \<Rightarrow> bool \<times> issue list" where
  "validate_section_order section_records =
     (let issues = order_loop 0 None section_records [] in (length issues = 0, issues))"

definition validate_section_completeness ::
  "string \<Rightarrow> string set \<Rightarrow> string set \<Rightarrow> bool \<times> string list \<times> string list" where
  "validate_section_completeness section_name expected_urls actual_urls =
     (let missing = sorted_list_of_set (expected_urls - actual_urls);
          extra = sorted_list_of_set (actual_urls - expected_urls);
          is_complete = (length missing = 0)
      in (is_complete, missing, extra))"

section \<open>The crawl engine (\<^verbatim>\<open>regscraper.py\<close>)\<close>

text \<open>
  The site is static and deterministic: a function from absolute URLs to what
  \<^verbatim>\<open>fetch_with_retry\<close> and the parser make of the page. \<open>Fetch_failed\<close> is no response
  or a status other than 200; \<open>Branch\<close> is a page with a \<^verbatim>\<open>codes-listing\<close> element and
  its links in document order; \<open>Leaf\<close> is a page without one that
  \<^verbatim>\<open>process_regulation_leaf\<close> extracts; \<open>Broken_leaf\<close> is a page without one on which the
  extraction raises (a missing breadcrumb or heading).
\<close>

datatype page = Fetch_failed | Branch "link list" | Leaf | Broken_leaf

type_synonym site = "string \<Rightarrow> page"

datatype caller = By_collect | By_scrape_branch | By_process_leaf

datatype warning = Malformed_url string | Excessive_depth nat string

datatype failure =
    Status_failure string
  | Leaf_error string
  | Leaf_fetch_failure string

datatype error = Parse_error | JSON_decode_error

text \<open>
  What one run shares and writes: the visited set, the records written to the output
  file, the lines of \<^verbatim>\<open>failed_{state}.txt\<close>, the warnings printed, and every call of
  \<^verbatim>\<open>fetch_with_retry\<close> with the function that made it.
\<close>

record crawl_state =
  visited_urls :: "string set"
  jsonl :: "regulation list"
  failed_log :: "failure list"
  warnings :: "warning list"
  fetch_log :: "(caller \<times> string) list"

definition REGULATIONS_BASE_URL :: string where
  "REGULATIONS_BASE_URL = ''https://regulations.justia.com''"

text \<open>
  \<^verbatim>\<open>site_url\<close> is \<^verbatim>\<open>REGULATIONS_BASE_URL\<close> at the only call site (line 690), so
  it is a constant here. The lock, the progress bars, the retry count and the shared
  session do not reach the result in a single-worker run and are left out.
\<close>

definition site_url :: string where
  "site_url = REGULATIONS_BASE_URL"

text \<open>Python's truth value of \<^verbatim>\<open>continue_from\<close>: neither \<^verbatim>\<open>None\<close> nor empty.\<close>

definition truthy :: "int list option \<Rightarrow> bool" where
  "truthy continue_from = (case continue_from of None \<Rightarrow> False | Some c \<Rightarrow> c \<noteq> [])"

text \<open>
  \<^verbatim>\<open>process_regulation_leaf\<close> fetches the page again and writes one record; an
  exception of the extraction leaves the function with the state reached so far.
\<close>

definition process_regulation_leaf ::
  "site \<Rightarrow> string \<Rightarrow> int list \<Rightarrow> crawl_state \<Rightarrow> (error \<times> crawl_state) + crawl_state" where
  "process_regulation_leaf site url lpath s =
     (let s1 = s\<lparr>fetch_log := fetch_log s @ [(By_process_leaf, url)]\<rparr>
      in case site url of
           Fetch_failed \<Rightarrow> Inr (s1\<lparr>failed_log := failed_log s1 @ [Leaf_fetch_failure url]\<rparr>)
         | Broken_leaf \<Rightarrow> Inl (Parse_error, s1)
         | _ \<Rightarrow> Inr (s1\<lparr>jsonl := jsonl s1 @ [\<lparr>reg_url = url, lex_path = lpath\<rparr>]\<rparr>))"

text \<open>Lines 515 to 520: the index at which the loop over the links starts.\<close>

definition start_index :: "int list \<Rightarrow> int list option \<Rightarrow> int" where
  "start_index path continue_from =
     (case continue_from of
        None \<Rightarrow> 0
      | Some c \<Rightarrow>
          if c \<noteq> [] \<and> path = take (length path) c \<and> length path < length c
          then c ! length path else 0)"

text \<open>
  \<^verbatim>\<open>scrape_branch\<close>, and its loop over the links as \<open>scrape_links\<close> (the \<^verbatim>\<open>break\<close> of
  the depth guard ends the loop). Nothing inside the recursive call raises in this
  model, so the handler of lines 568 to 583 has no branch.
\<close>

function scrape_branch :: "(string \<Rightarrow> string) \<Rightarrow> site \<Rightarrow> string \<Rightarrow> int list \<Rightarrow> int list option \<Rightarrow> crawl_state \<Rightarrow> crawl_state"
  and scrape_links ::
    "(string \<Rightarrow> string) \<Rightarrow> site \<Rightarrow> string \<Rightarrow> int list \<Rightarrow> int list option \<Rightarrow> int \<Rightarrow> nat \<Rightarrow> link list \<Rightarrow> crawl_state
      \<Rightarrow> crawl_state"
  where
  "scrape_branch upper site url path continue_from s =
     (if url \<in> visited_urls s then s
      else
        let s1 = s\<lparr>visited_urls := insert url (visited_urls s),
                   fetch_log := fetch_log s @ [(By_scrape_branch, url)]\<rparr>
        in case site url of
             Fetch_failed \<Rightarrow> s1\<lparr>failed_log := failed_log s1 @ [Status_failure url]\<rparr>
           | Branch links \<Rightarrow>
               scrape_links upper site url path continue_from (start_index path continue_from) 0 links s1
           | _ \<Rightarrow>
               if truthy continue_from \<and> Some path = continue_from then s1
               else (case process_regulation_leaf site url path s1 of
                       Inr s2 \<Rightarrow> s2
                     | Inl (e, s2) \<Rightarrow> s2\<lparr>failed_log := failed_log s2 @ [Leaf_error url]\<rparr>))"
| "scrape_links upper site url path continue_from start_idx i [] s = s"
| "scrape_links upper site url path continue_from start_idx i (l # ls) s =
     (if int i < start_idx then scrape_links upper site url path continue_from start_idx (Suc i) ls s
      else if is_reserved_or_repealed upper (link_text l)
      then scrape_links upper site url path continue_from start_idx (Suc i) ls s
      else if malformed_href (href l)
      then scrape_links upper site url path continue_from start_idx (Suc i) ls
             (s\<lparr>warnings := warnings s @ [Malformed_url (site_url @ href l)]\<rparr>)
      else if length path \<ge> 20
      then s\<lparr>warnings := warnings s @ [Excessive_depth (length path) url]\<rparr>
      else
        scrape_links upper site url path continue_from start_idx (Suc i) ls
          (scrape_branch upper site (site_url @ href l) (path @ [int i])
             (if truthy continue_from \<and> int i > start_idx then None else continue_from) s))"
  by pat_completeness auto
termination
  by (relation
       "(\<lambda>x. case x of
               Inl (upper, site, url, path, continue_from, s) \<Rightarrow> 2 * (21 - length path) + 1
             | Inr (upper, site, url, path, continue_from, start_idx, i, links, s) \<Rightarrow>
                 2 * (21 - length path))
        <*mlex*>
        measure (\<lambda>x. case x of
               Inl (upper, site, url, path, continue_from, s) \<Rightarrow> 0
             | Inr (upper, site, url, path, continue_from, start_idx, i, links, s) \<Rightarrow> length links)")
     (auto simp: wf_mlex mlex_prod_def)

declare scrape_branch.simps [simp del]

text \<open>
  Lines 751 to 763: one job \<^verbatim>\<open>(href, path, continue_from, dept_name)\<close> for each top-level
  link from the start index on.
\<close>

type_synonym job = "string \<times> int list \<times> int list option \<times> string"

fun enqueue :: "int \<Rightarrow> int list option \<Rightarrow> nat \<Rightarrow> link list \<Rightarrow> job list" where
  "enqueue start_branch_idx continue_from i [] = []"
| "enqueue start_branch_idx continue_from i (l # ls) =
     (if int i < start_branch_idx then enqueue start_branch_idx continue_from (Suc i) ls
      else (href l, [int i],
            (if int i = start_branch_idx \<and> truthy continue_from then continue_from else None),
            link_text l)
           # enqueue start_branch_idx continue_from (Suc i) ls)"

text \<open>
  \<^verbatim>\<open>worker\<close> with one thread (the default \<^verbatim>\<open>num_threads\<close>): the jobs are taken from the
  queue in order and each is crawled to its end before the next.
\<close>

fun worker :: "(string \<Rightarrow> string) \<Rightarrow> site \<Rightarrow> job list \<Rightarrow> crawl_state \<Rightarrow> crawl_state" where
  "worker upper site [] s = s"
| "worker upper site ((job_href, path, continue_from, dept_name) # work_queue) s =
     worker upper site work_queue (scrape_branch upper site (site_url @ job_href) path continue_from s)"

definition initial_state :: crawl_state where
  "initial_state =
     \<lparr>visited_urls = {}, jsonl = [], failed_log = [], warnings = [], fetch_log = []\<rparr>"

text \<open>
  The body of \<^verbatim>\<open>collect_regulations_for_state\<close> from the first fetch on (lines 723 to
  796), for the index page \<open>state_init_url\<close> of the state and the cursor
  \<open>continue_from\<close>; \<open>jsonl\<close> of the result is what this run writes to the output file.
\<close>

definition crawl :: "(string \<Rightarrow> string) \<Rightarrow> site \<Rightarrow> string \<Rightarrow> int list option \<Rightarrow> crawl_state" where
  "crawl upper site state_init_url continue_from =
     (let s0 = initial_state\<lparr>fetch_log := [(By_collect, state_init_url)]\<rparr>
      in case site state_init_url of
           Branch all_links \<Rightarrow>
             (let links = filter (\<lambda>l. \<not> is_reserved_or_repealed upper (link_text l)) all_links;
                  start_branch_idx = (case continue_from of
                                        Some (c0 # cs) \<Rightarrow> c0
                                      | _ \<Rightarrow> 0)
              in worker upper site (enqueue start_branch_idx continue_from 0 links) s0)
         | _ \<Rightarrow> s0)"

section \<open>Resuming (\<^verbatim>\<open>get_last_lex_path\<close> and the start of \<^verbatim>\<open>collect_regulations_for_state\<close>)\<close>

text \<open>
  The prior output file is \<open>None\<close> when it does not exist and its bytes otherwise.
  \<open>find_line_start bytes p\<close> is the loop of lines 470 and 471 entered with the file
  position \<open>p\<close>: \<^verbatim>\<open>read(1)\<close> moves to \<open>p + 1\<close>; on a newline the loop ends there, otherwise
  \<^verbatim>\<open>seek(-2, SEEK_CUR)\<close> moves to \<open>p - 1\<close>, and raises \<^verbatim>\<open>OSError\<close> at \<open>p = 0\<close>, which the
  handler answers with \<^verbatim>\<open>seek(0)\<close>.
\<close>

definition newline :: char where
  "newline = CHR 0x0A"

primrec find_line_start :: "string \<Rightarrow> nat \<Rightarrow> nat" where
  "find_line_start bytes 0 = (if bytes ! 0 = newline then 1 else 0)"
| "find_line_start bytes (Suc p) =
     (if bytes ! Suc p = newline then Suc (Suc p) else find_line_start bytes p)"

primrec readline :: "string \<Rightarrow> string" where
  "readline [] = []"
| "readline (c # cs) = (if c = newline then [c] else c # readline cs)"

text \<open>Lines 467 to 474, for a file that is not empty.\<close>

definition last_line :: "string \<Rightarrow> string" where
  "last_line bytes =
     (let start = (if length bytes < 2 then 0 else find_line_start bytes (length bytes - 2))
      in readline (drop start bytes))"

text \<open>
  \<^verbatim>\<open>json.loads(last_line).get("lex_path")\<close> is a parameter: \<open>None\<close> when decoding
  raises, \<open>Some None\<close> when the object has no \<^verbatim>\<open>lex_path\<close> or it is \<^verbatim>\<open>null\<close>.
\<close>

definition get_last_lex_path ::
  "(string \<Rightarrow> int list option option) \<Rightarrow> string option \<Rightarrow> error + int list option" where
  "get_last_lex_path loads_lex_path file =
     (case file of
        None \<Rightarrow> Inr None
      | Some bytes \<Rightarrow>
          if length bytes = 0 then Inr None
          else (case loads_lex_path (last_line bytes) of
                  None \<Rightarrow> Inl JSON_decode_error
                | Some v \<Rightarrow> Inr v))"

datatype mode = Truncate | Append

text \<open>Lines 696 to 702: the cursor and the mode in which line 723 opens the output.\<close>

definition resume_setup ::
  "(string \<Rightarrow> int list option option) \<Rightarrow> string option \<Rightarrow> bool
     \<Rightarrow> error + (int list option \<times> mode)" where
  "resume_setup loads_lex_path file resume =
     (if resume
      then (case get_last_lex_path loads_lex_path file of
              Inl e \<Rightarrow> Inl e
            | Inr continue_from \<Rightarrow>
                Inr (continue_from, if continue_from \<noteq> None then Append else Truncate))
      else Inr (None, Truncate))"

text \<open>
  \<^verbatim>\<open>collect_regulations_for_state\<close> as a whole, for a known state: the cursor and the
  mode first, then the crawl. With \<open>Append\<close> the records of the run follow the prior
  output, with \<open>Truncate\<close> they replace it.
\<close>

definition collect_regulations_for_state ::
  "(string \<Rightarrow> string) \<Rightarrow> site \<Rightarrow> (string \<Rightarrow> int list option option) \<Rightarrow> string option \<Rightarrow> string \<Rightarrow> bool
     \<Rightarrow> error + (mode \<times> crawl_state)" where
  "collect_regulations_for_state upper site loads_lex_path file state_init_url resume =
     (case resume_setup loads_lex_path file resume of
        Inl e \<Rightarrow> Inl e
      | Inr (continue_from, m) \<Rightarrow> Inr (m, crawl upper site state_init_url continue_from))"

section \<open>The verification pass (\<^verbatim>\<open>validate_regs.py\<close>)\<close>

record top_section =
  sec_name :: string
  sec_url :: string
  sec_index :: nat

text \<open>Lines 76, 77, 121 and 122: a slash is appended to a URL that does not end in one.\<close>

definition add_slash :: "string \<Rightarrow> string" where
  "add_slash u = (if endswith u ''/'' then u else u @ ''/'')"

fun top_level_loop :: "(string \<Rightarrow> string) \<Rightarrow> nat \<Rightarrow> link list \<Rightarrow> top_section list" where
  "top_level_loop upper i [] = []"
| "top_level_loop upper i (l # ls) =
     (if is_reserved_or_repealed upper (link_text l) then top_level_loop upper (Suc i) ls
      else if malformed_href (href l) then top_level_loop upper (Suc i) ls
      else \<lparr>sec_name = link_text l,
            sec_url = add_slash (''https://regulations.justia.com'' @ href l),
            sec_index = i\<rparr> # top_level_loop upper (Suc i) ls)"

definition get_top_level_sections :: "(string \<Rightarrow> string) \<Rightarrow> site \<Rightarrow> string \<Rightarrow> top_section list" where
  "get_top_level_sections upper site base_url =
     (case site base_url of Branch links \<Rightarrow> top_level_loop upper 0 links | _ \<Rightarrow> [])"

text \<open>
  The inner function \<^verbatim>\<open>_walk\<close> of \<^verbatim>\<open>walk_section\<close>; the list it appends to is returned.
\<close>

function walk :: "(string \<Rightarrow> string) \<Rightarrow> site \<Rightarrow> nat \<Rightarrow> string \<Rightarrow> int list \<Rightarrow> nat \<Rightarrow> string list"
  and walk_links :: "(string \<Rightarrow> string) \<Rightarrow> site \<Rightarrow> nat \<Rightarrow> int list \<Rightarrow> nat \<Rightarrow> nat \<Rightarrow> link list \<Rightarrow> string list"
  where
  "walk upper site max_depth url path depth =
     (if depth \<ge> max_depth then []
      else case site url of
             Fetch_failed \<Rightarrow> []
           | Branch links \<Rightarrow> walk_links upper site max_depth path depth 0 links
           | _ \<Rightarrow> [url])"
| "walk_links upper site max_depth path depth i [] = []"
| "walk_links upper site max_depth path depth i (l # ls) =
     (if is_reserved_or_repealed upper (link_text l) then walk_links upper site max_depth path depth (Suc i) ls
      else if malformed_href (href l) then walk_links upper site max_depth path depth (Suc i) ls
      else walk upper site max_depth (add_slash (''https://regulations.justia.com'' @ href l))
             (path @ [int i]) (depth + 1)
           @ walk_links upper site max_depth path depth (Suc i) ls)"
  by pat_completeness auto
termination
  by (relation
       "(\<lambda>x. case x of
               Inl (upper, site, max_depth, url, path, depth) \<Rightarrow>
                 if depth < max_depth then 2 * (max_depth - depth) + 1 else 0
             | Inr (upper, site, max_depth, path, depth, i, links) \<Rightarrow>
                 if depth < max_depth then 2 * (max_depth - depth) else 1)
        <*mlex*>
        measure (\<lambda>x. case x of
               Inl (upper, site, max_depth, url, path, depth) \<Rightarrow> 0
             | Inr (upper, site, max_depth, path, depth, i, links) \<Rightarrow> length links)")
     (auto simp: wf_mlex mlex_prod_def)

declare walk.simps [simp del]

definition walk_section :: "(string \<Rightarrow> string) \<Rightarrow> site \<Rightarrow> string \<Rightarrow> int list \<Rightarrow> string list" where
  "walk_section upper site section_url section_path = walk upper site 20 section_url section_path 0"

text \<open>
  \<^verbatim>\<open>validate_state\<close>, lines 354 to 359 and 392: the persisted records whose LexPath is
  not empty and starts with the section index.
\<close>

definition records_by_section :: "regulation list \<Rightarrow> int \<Rightarrow> regulation list" where
  "records_by_section all_records section_idx =
     filter (\<lambda>r. lex_path r \<noteq> [] \<and> hd (lex_path r) = section_idx) all_records"

text \<open>
  The completeness check of one section as \<^verbatim>\<open>validate_state\<close> runs it (lines 386 to
  400): the result of \<^verbatim>\<open>validate_section_completeness\<close>.
\<close>

definition check_section ::
  "(string \<Rightarrow> string) \<Rightarrow> site \<Rightarrow> regulation list \<Rightarrow> top_section \<Rightarrow> bool \<times> string list \<times> string list" where
  "check_section upper site all_records sec =
     (let section_idx = sec_index sec;
          expected_urls = walk_section upper site (sec_url sec) [int section_idx];
          actual_section_records = records_by_section all_records (int section_idx);
          actual_urls = set (map reg_url actual_section_records)
      in validate_section_completeness (sec_name sec) (set expected_urls) actual_urls)"

definition validate_state ::
  "(string \<Rightarrow> string) \<Rightarrow> site \<Rightarrow> string \<Rightarrow> regulation list \<Rightarrow> (bool \<times> string list \<times> string list) list" where
  "validate_state upper site base_url all_records =
     map (check_section upper site all_records) (get_top_level_sections upper site base_url)"

section \<open>The hierarchy a crawl unfolds\<close>

text \<open>
  The nodes that \<^verbatim>\<open>scrape_branch\<close> dispatches from a node when no cursor prunes and no
  URL repeats, in document order: the URL, the LexPath, and whether the page is a
  leaf that is extracted. Excluded and malformed links and the depth guard cut the
  hierarchy as they cut the crawl. Top-level sections are numbered after the
  exclusion filter, as lines 739 and 755 number them.
\<close>

type_synonym node = "string \<times> int list \<times> bool"

function hierarchy :: "(string \<Rightarrow> string) \<Rightarrow> site \<Rightarrow> string \<Rightarrow> int list \<Rightarrow> node list"
  and hierarchy_links :: "(string \<Rightarrow> string) \<Rightarrow> site \<Rightarrow> int list \<Rightarrow> nat \<Rightarrow> link list \<Rightarrow> node list"
  where
  "hierarchy upper site url path =
     (url, path, site url = Leaf)
       # (case site url of Branch links \<Rightarrow> hierarchy_links upper site path 0 links | _ \<Rightarrow> [])"
| "hierarchy_links upper site path i [] = []"
| "hierarchy_links upper site path i (l # ls) =
     (if is_reserved_or_repealed upper (link_text l) \<or> malformed_href (href l)
      then hierarchy_links upper site path (Suc i) ls
      else if length path \<ge> 20 then []
      else hierarchy upper site (site_url @ href l) (path @ [int i])
           @ hierarchy_links upper site path (Suc i) ls)"
  by pat_completeness auto
termination
  by (relation
       "(\<lambda>x. case x of
               Inl (upper, site, url, path) \<Rightarrow> 2 * (21 - length path) + 1
             | Inr (upper, site, path, i, links) \<Rightarrow> 2 * (21 - length path))
        <*mlex*>
        measure (\<lambda>x. case x of
               Inl (upper, site, url, path) \<Rightarrow> 0
             | Inr (upper, site, path, i, links) \<Rightarrow> length links)")
     (auto simp: wf_mlex mlex_prod_def)

declare hierarchy.simps [simp del]

fun hierarchy_jobs :: "(string \<Rightarrow> string) \<Rightarrow> site \<Rightarrow> nat \<Rightarrow> link list \<Rightarrow> node list" where
  "hierarchy_jobs upper site i [] = []"
| "hierarchy_jobs upper site i (l # ls) =
     hierarchy upper site (site_url @ href l) [int i] @ hierarchy_jobs upper site (Suc i) ls"

definition site_hierarchy :: "(string \<Rightarrow> string) \<Rightarrow> site \<Rightarrow> string \<Rightarrow> node list" where
  "site_hierarchy upper site state_init_url =
     (case site state_init_url of
        Branch all_links \<Rightarrow>
          hierarchy_jobs upper site 0 (filter (\<lambda>l. \<not> is_reserved_or_repealed upper (link_text l)) all_links)
      | _ \<Rightarrow> [])"

definition leaves :: "node list \<Rightarrow> regulation list" where
  "leaves nodes = map (\<lambda>(u, p, b). \<lparr>reg_url = u, lex_path = p\<rparr>) (filter (\<lambda>(u, p, b). b) nodes)"

text \<open>The URL a line of the failure log names.\<close>

fun failure_url :: "failure \<Rightarrow> string" where
  "failure_url (Status_failure u) = u"
| "failure_url (Leaf_error u) = u"
| "failure_url (Leaf_fetch_failure u) = u"

text \<open>
  The targets of the links, on any branch page of the site, whose text is not
  excluded.
\<close>

definition link_targets :: "(string \<Rightarrow> string) \<Rightarrow> site \<Rightarrow> string set" where
  "link_targets upper site =
     {site_url @ href l | l u links.
        site u = Branch links \<and> l \<in> set links \<and> \<not> is_reserved_or_repealed upper (link_text l)}"

section \<open>Example inputs\<close>

text \<open>The three records of the spec's order check.\<close>

definition order_check_records :: "regulation list" where
  "order_check_records =
     [\<lparr>reg_url = ''a'', lex_path = [0, 0]\<rparr>, \<lparr>reg_url = ''b'', lex_path = [0, 1]\<rparr>,
      \<lparr>reg_url = ''c'', lex_path = [0, 0]\<rparr>]"

text \<open>
  A prior output of two records and a decoder that knows its last line,
  \<^verbatim>\<open>{"lex_path": [2, 1, 3]}\<close>.
\<close>

definition cursor_line :: string where
  "cursor_line = ''{'' @ [CHR 0x22] @ ''lex_path'' @ [CHR 0x22] @ '': [2, 1, 3]}''"

definition example_loads :: "string \<Rightarrow> int list option option" where
  "example_loads line =
     (if line = cursor_line @ [newline] \<or> line = cursor_line then Some (Some [2, 1, 3])
      else if line = ''{}'' @ [newline] \<or> line = ''{}'' then Some None
      else None)"

text \<open>
  A three-level site: two titles with rules, a reserved title between them and a
  repealed chapter. Every other URL fails.
\<close>

definition montana :: string where
  "montana = ''https://regulations.justia.com/states/montana/''"

definition demo_site :: site where
  "demo_site u =
     (if u = montana then
        Branch [\<lparr>link_text = ''Title 1'', href = ''/t1/''\<rparr>,
                \<lparr>link_text = ''Title 2 (Reserved)'', href = ''/t2/''\<rparr>,
                \<lparr>link_text = ''Title 3'', href = ''/t3/''\<rparr>]
      else if u = ''https://regulations.justia.com/t1/'' then
        Branch [\<lparr>link_text = ''Rule 1'', href = ''/t1/r1/''\<rparr>,
                \<lparr>link_text = ''Rule 2'', href = ''/t1/r2/''\<rparr>]
      else if u = ''https://regulations.justia.com/t3/'' then
        Branch [\<lparr>link_text = ''Chapter 5 (Repealed)'', href = ''/t3/c5/''\<rparr>,
                \<lparr>link_text = ''Rule 9'', href = ''/t3/r9/''\<rparr>]
      else if u = ''https://regulations.justia.com/t1/r1/'' then Leaf
      else if u = ''https://regulations.justia.com/t1/r2/'' then Leaf
      else if u = ''https://regulations.justia.com/t3/r9/'' then Leaf
      else Fetch_failed)"

text \<open>
  A site without failures on which one rule is linked from two titles: \<^verbatim>\<open>/x/\<close> is the
  first rule of Title 1 and the only rule of Title 2.
\<close>

definition alias_site :: site where
  "alias_site u =
     (if u = montana then
        Branch [\<lparr>link_text = ''Title 1'', href = ''/t1/''\<rparr>,
                \<lparr>link_text = ''Title 2'', href = ''/t2/''\<rparr>]
      else if u = ''https://regulations.justia.com/t1/'' then
        Branch [\<lparr>link_text = ''Rule X'', href = ''/x/''\<rparr>,
                \<lparr>link_text = ''Rule Y'', href = ''/y/''\<rparr>]
      else if u = ''https://regulations.justia.com/t2/'' then
        Branch [\<lparr>link_text = ''Rule X'', href = ''/x/''\<rparr>]
      else if u = ''https://regulations.justia.com/x/'' then Leaf
      else if u = ''https://regulations.justia.com/y/'' then Leaf
      else Fetch_failed)"

text \<open>A site whose only title is repealed without parentheses.\<close>

definition bare_repealed_site :: site where
  "bare_repealed_site u =
     (if u = montana then Branch [\<lparr>link_text = ''Chapter 7 Repealed'', href = ''/c7/''\<rparr>]
      else if u = ''https://regulations.justia.com/c7/'' then Leaf
      else Fetch_failed)"

text \<open>A site whose only top-level link has a doubled slash.\<close>

definition doubled_slash_site :: site where
  "doubled_slash_site u =
     (if u = montana then Branch [\<lparr>link_text = ''Title 1'', href = ''/t1//''\<rparr>]
      else if u = ''https://regulations.justia.com/t1//'' then Leaf
      else Fetch_failed)"

text \<open>A site with a reserved title before its only regulation.\<close>

definition reserved_first_site :: site where
  "reserved_first_site u =
     (if u = montana then
        Branch [\<lparr>link_text = ''Title 1 (Reserved)'', href = ''/t1/''\<rparr>,
                \<lparr>link_text = ''Title 2'', href = ''/t2/''\<rparr>]
      else if u = ''https://regulations.justia.com/t2/'' then Leaf
      else Fetch_failed)"

text \<open>
  Two branch pages met at depth 20: one whose only child is reserved, one with a
  child that the loop would follow.
\<close>

definition deep_path :: "int list" where
  "deep_path = replicate 20 0"

definition deep_site :: site where
  "deep_site u =
     (if u = ''https://regulations.justia.com/a/'' then
        Branch [\<lparr>link_text = ''Part 1 (Reserved)'', href = ''/a/1/''\<rparr>]
      else if u = ''https://regulations.justia.com/b/'' then
        Branch [\<lparr>link_text = ''Part 1'', href = ''/b/1/''\<rparr>]
      else Leaf)"

text \<open>A site with a cycle: the only title links to a rule and back to itself.\<close>

definition cycle_site :: site where
  "cycle_site u =
     (if u = montana then Branch [\<lparr>link_text = ''Title 1'', href = ''/t1/''\<rparr>]
      else if u = ''https://regulations.justia.com/t1/'' then
        Branch [\<lparr>link_text = ''Rule 1'', href = ''/t1/r1/''\<rparr>,
                \<lparr>link_text = ''Title 1'', href = ''/t1/''\<rparr>]
      else if u = ''https://regulations.justia.com/t1/r1/'' then Leaf
      else Fetch_failed)"

section \<open>Auxiliary notions\<close>

text \<open>
  \<open>followed start_idx i l\<close>: the loop of \<^verbatim>\<open>scrape_branch\<close> skips the link \<open>l\<close> at
  index \<open>i\<close> for none of its three reasons (resume index, exclusion, malformed href).
\<close>

definition followed :: "(string \<Rightarrow> string) \<Rightarrow> int \<Rightarrow> nat \<Rightarrow> link \<Rightarrow> bool" where
  "followed upper start_idx i l \<longleftrightarrow>
     \<not> int i < start_idx \<and> \<not> is_reserved_or_repealed upper (link_text l) \<and> \<not> malformed_href (href l)"

text \<open>
  \<open>emitted_under path s s'\<close>: from \<open>s\<close> to \<open>s'\<close> the output grew by records with pairwise
  different LexPaths that extend \<open>path\<close>; \<open>emitted_from path i s s'\<close>: by records with
  pairwise different LexPaths that extend \<open>path\<close> by a sibling index from \<open>i\<close> on.
\<close>

definition emitted_under :: "int list \<Rightarrow> crawl_state \<Rightarrow> crawl_state \<Rightarrow> bool" where
  "emitted_under path s s' \<longleftrightarrow>
     (\<exists>new. jsonl s' = jsonl s @ new \<and> distinct (map lex_path new) \<and>
        (\<forall>r \<in> set new. prefix path (lex_path r) \<and> length (lex_path r) \<le> max 20 (length path)))"

definition emitted_from :: "int list \<Rightarrow> nat \<Rightarrow> crawl_state \<Rightarrow> crawl_state \<Rightarrow> bool" where
  "emitted_from path i s s' \<longleftrightarrow>
     (\<exists>new. jsonl s' = jsonl s @ new \<and> distinct (map lex_path new) \<and>
        (\<forall>r \<in> set new. (\<exists>j\<ge>i. prefix (path @ [int j]) (lex_path r)) \<and> length (lex_path r) \<le> 20))"

text \<open>
  \<open>log_inv s\<close>: no function fetched a URL twice, and what \<^verbatim>\<open>scrape_branch\<close> or
  \<^verbatim>\<open>process_regulation_leaf\<close> fetched is in the visited set.
\<close>

definition log_inv :: "crawl_state \<Rightarrow> bool" where
  "log_inv s \<longleftrightarrow>
     distinct (fetch_log s) \<and>
     (\<forall>c u. (c, u) \<in> set (fetch_log s) \<longrightarrow> c = By_collect \<or> u \<in> visited_urls s)"

text \<open>
  \<open>targets_inv site s\<close>: every URL that the traversal fetched, wrote to the output or
  wrote to the failure log is the target of a link whose text is not excluded.
\<close>

definition targets_inv :: "(string \<Rightarrow> string) \<Rightarrow> site \<Rightarrow> crawl_state \<Rightarrow> bool" where
  "targets_inv upper site s \<longleftrightarrow>
     (\<forall>c u. (c, u) \<in> set (fetch_log s) \<longrightarrow> c = By_collect \<or> u \<in> link_targets upper site) \<and>
     reg_url ` set (jsonl s) \<subseteq> link_targets upper site \<and>
     failure_url ` set (failed_log s) \<subseteq> link_targets upper site"

text \<open>
  \<open>fresh nodes s\<close>: the URLs of the nodes are pairwise different and none of them is
  in the visited set. \<open>after_cursor c records\<close>: the records whose LexPath is strictly
  after \<open>c\<close>.
\<close>

definition fresh :: "node list \<Rightarrow> crawl_state \<Rightarrow> bool" where
  "fresh nodes s \<longleftrightarrow> distinct (map fst nodes) \<and> fst ` set nodes \<inter> visited_urls s = {}"

definition after_cursor :: "int list \<Rightarrow> regulation list \<Rightarrow> regulation list" where
  "after_cursor c records = filter (\<lambda>r. lexpath_less c (lex_path r)) records"

text \<open>
  The last line of a file as the specification reads it: the bytes after the last
  newline that is not the final byte of the file, with the final newline if the file
  ends in one.
\<close>

definition final_line :: "string \<Rightarrow> string" where
  "final_line bytes =
     (if last bytes = newline
      then rev (takeWhile (\<lambda>c. c \<noteq> newline) (rev (butlast bytes))) @ [newline]
      else rev (takeWhile (\<lambda>c. c \<noteq> newline) (rev bytes)))"

section \<open>Verified properties\<close>

subsection \<open>The order on LexPaths and the order validator\<close>

lemma lexpath_less_Nil_left: "lexpath_less [] q \<longleftrightarrow> q \<noteq> []"
  by (cases q) (auto simp: lexpath_less_def)

lemma lexpath_less_Nil_right: "\<not> lexpath_less p []"
  by (auto simp: lexpath_less_def)

lemma lexpath_less_Cons:
  "lexpath_less (x # xs) (y # ys) \<longleftrightarrow> x < y \<or> (x = y \<and> lexpath_less xs ys)"
proof
  assume "lexpath_less (x # xs) (y # ys)"
  then consider (pre) "strict_prefix (x # xs) (y # ys)"
    | (ix) i where "i < length (x # xs)" "i < length (y # ys)"
        "take i (x # xs) = take i (y # ys)" "(x # xs) ! i < (y # ys) ! i"
    unfolding lexpath_less_def by blast
  then show "x < y \<or> (x = y \<and> lexpath_less xs ys)"
  proof cases
    case pre
    then show ?thesis by (auto simp: lexpath_less_def)
  next
    case ix
    show ?thesis
    proof (cases i)
      case 0
      with ix show ?thesis by simp
    next
      case (Suc j)
      with ix have "x = y" "j < length xs" "j < length ys" "take j xs = take j ys" "xs ! j < ys ! j"
        by simp_all
      then show ?thesis unfolding lexpath_less_def by blast
    qed
  qed
next
  assume r: "x < y \<or> (x = y \<and> lexpath_less xs ys)"
  show "lexpath_less (x # xs) (y # ys)"
  proof (cases "x < y")
    case True
    then have "0 < length (x # xs) \<and> 0 < length (y # ys) \<and> take 0 (x # xs) = take 0 (y # ys)
        \<and> (x # xs) ! 0 < (y # ys) ! 0" by simp
    then show ?thesis unfolding lexpath_less_def by blast
  next
    case False
    with r have xy: "x = y" and l: "lexpath_less xs ys" by auto
    from l consider (pre) "strict_prefix xs ys"
      | (ix) j where "j < length xs" "j < length ys" "take j xs = take j ys" "xs ! j < ys ! j"
      unfolding lexpath_less_def by blast
    then show ?thesis
    proof cases
      case pre
      with xy show ?thesis by (simp add: lexpath_less_def)
    next
      case ix
      with xy have "Suc j < length (x # xs) \<and> Suc j < length (y # ys)
         \<and> take (Suc j) (x # xs) = take (Suc j) (y # ys) \<and> (x # xs) ! Suc j < (y # ys) ! Suc j"
        by simp
      then show ?thesis unfolding lexpath_less_def by blast
    qed
  qed
qed

lemma py_list_gt_iff: "py_list_gt p q \<longleftrightarrow> lexpath_less q p"
  by (induction p q rule: py_list_gt.induct)
     (auto simp: lexpath_less_Cons lexpath_less_Nil_left lexpath_less_Nil_right)

lemma lexpath_less_iff_less: "lexpath_less p q \<longleftrightarrow> p < q"
proof (induction p arbitrary: q)
  case Nil
  then show ?case by (cases q) (simp_all add: lexpath_less_Nil_left)
next
  case (Cons x xs)
  then show ?case by (cases q) (auto simp: lexpath_less_Nil_right lexpath_less_Cons)
qed

lemma order_loop_eq:
  "order_loop i (Some p) rs acc =
     acc @ [(i + k, (p # map lex_path rs) ! k, lex_path (rs ! k)).
              k \<leftarrow> [0..<length rs], py_list_gt ((p # map lex_path rs) ! k) (lex_path (rs ! k))]"
proof (induction rs arbitrary: i p acc)
  case Nil
  then show ?case by simp
next
  case (Cons r rs)
  have upt: "[0..<length (r # rs)] = 0 # map Suc [0..<length rs]"
    by (simp add: upt_conv_Cons map_Suc_upt del: upt_Suc)
  show ?case
    unfolding upt
    by (simp add: Cons.IH Let_def comp_def del: upt_Suc cong: if_cong)
qed


lemma validate_order_issues:
  "snd (validate_section_order rs) =
     [(i, lex_path (rs ! (i - 1)), lex_path (rs ! i)).
        i \<leftarrow> [1..<length rs], lexpath_less (lex_path (rs ! i)) (lex_path (rs ! (i - 1)))]"
proof (cases rs)
  case Nil
  then show ?thesis by (simp add: validate_section_order_def)
next
  case (Cons r rs')
  have shift: "[1..<length (r # rs')] = map Suc [0..<length rs']"
    by (simp add: map_Suc_upt del: upt_Suc)
  have nth_eq: "(lex_path r # map lex_path rs') ! k = lex_path ((r # rs') ! k)"
    if "k < length rs'" for k
    using that by (cases k) simp_all
  have "snd (validate_section_order (r # rs')) =
      concat (map (\<lambda>k. if lexpath_less (lex_path (rs' ! k)) ((lex_path r # map lex_path rs') ! k)
                          then [(Suc k, (lex_path r # map lex_path rs') ! k, lex_path (rs' ! k))]
                          else [])
                  [0..<length rs'])"
    by (simp add: validate_section_order_def order_loop_eq py_list_gt_iff Let_def
             del: upt_Suc cong: if_cong)
  also have "\<dots> =
      concat (map (\<lambda>k. if lexpath_less (lex_path (rs' ! k)) (lex_path ((r # rs') ! k))
                          then [(Suc k, lex_path ((r # rs') ! k), lex_path (rs' ! k))]
                          else [])
                  [0..<length rs'])"
    by (rule arg_cong[where f = concat], rule map_cong) (simp_all add: nth_eq)
  finally show ?thesis
    unfolding Cons shift by (simp add: comp_def del: upt_Suc cong: if_cong)
qed


lemma order_example:
  "validate_section_order order_check_records = (False, [(2, [0, 1], [0, 0])])"
  by (simp add: validate_section_order_def order_check_records_def)

text \<open>
  C7. For every list of section records, \<^verbatim>\<open>validate_section_order\<close> reports one issue
  for each position \<open>i > 0\<close> at which the LexPath of record \<open>i\<close> is strictly less than
  that of record \<open>i - 1\<close> in the element-wise, shorter-prefix-first order, in the order
  of the positions and with the two paths, and no other issue; the section is
  reported ordered iff there is no such position.
\<close>

theorem order_validator:
  "snd (validate_section_order rs) =
     [(i, lex_path (rs ! (i - 1)), lex_path (rs ! i)).
        i \<leftarrow> [1..<length rs], lexpath_less (lex_path (rs ! i)) (lex_path (rs ! (i - 1)))]
   \<and> (fst (validate_section_order rs) \<longleftrightarrow>
        (\<forall>i. 0 < i \<and> i < length rs \<longrightarrow>
             \<not> lexpath_less (lex_path (rs ! i)) (lex_path (rs ! (i - 1)))))"
proof -
  let ?bad = "\<lambda>i. lexpath_less (lex_path (rs ! i)) (lex_path (rs ! (i - 1)))"
  have issues: "snd (validate_section_order rs) =
      [(i, lex_path (rs ! (i - 1)), lex_path (rs ! i)). i \<leftarrow> [1..<length rs], ?bad i]"
    by (rule validate_order_issues)
  have "fst (validate_section_order rs) \<longleftrightarrow> snd (validate_section_order rs) = []"
    by (simp add: validate_section_order_def Let_def)
  also have "\<dots> \<longleftrightarrow> (\<forall>i \<in> set [1..<length rs]. \<not> ?bad i)"
    unfolding issues by (auto split: if_splits)
  also have "\<dots> \<longleftrightarrow> (\<forall>i. 0 < i \<and> i < length rs \<longrightarrow> \<not> ?bad i)"
    by auto
  finally show ?thesis using issues by blast
qed

text \<open>
  The records of the spec's example: exactly one issue, at record 2, between the
  records at index 1 and index 2.
\<close>

theorem order_validator_witness:
  "validate_section_order order_check_records = (False, [(2, [0, 1], [0, 0])])
   \<and> \<not> (\<forall>i. 0 < i \<and> i < length order_check_records \<longrightarrow>
           \<not> lexpath_less (lex_path (order_check_records ! i))
                          (lex_path (order_check_records ! (i - 1))))"
proof -
  have "fst (validate_section_order order_check_records) \<longleftrightarrow>
        (\<forall>i. 0 < i \<and> i < length order_check_records \<longrightarrow>
             \<not> lexpath_less (lex_path (order_check_records ! i))
                            (lex_path (order_check_records ! (i - 1))))"
    using order_validator [of order_check_records] by (rule conjunct2)
  moreover have "\<not> fst (validate_section_order order_check_records)"
    by (simp only: order_example fst_conv not_False_eq_True)
  ultimately show ?thesis
    using order_example by blast
qed

subsection \<open>The completeness diff\<close>

lemma completeness_example:
  "validate_section_completeness ''Title 1'' {''A'', ''B'', ''C''} {''A'', ''C'', ''D''}
     = (False, [''B''], [''D''])"
  by code_simp

text \<open>
  C8. For finite sets of expected and actual URLs, \<^verbatim>\<open>validate_section_completeness\<close>
  returns as missing the expected URLs that are not actual and as extra the actual
  URLs that are not expected, each as a sorted list without repetition, and judges
  the section complete iff nothing is missing, that is iff every expected URL is
  actual: extra URLs do not count.
\<close>

theorem completeness_diff:
  assumes "finite expected_urls" and "finite actual_urls"
  shows "case validate_section_completeness section_name expected_urls actual_urls of
           (is_complete, missing, extra) \<Rightarrow>
             set missing = expected_urls - actual_urls \<and> sorted missing \<and> distinct missing \<and>
             set extra = actual_urls - expected_urls \<and> sorted extra \<and> distinct extra \<and>
             (is_complete \<longleftrightarrow> missing = []) \<and>
             (is_complete \<longleftrightarrow> expected_urls \<subseteq> actual_urls)"
  using assms by (auto simp: validate_section_completeness_def)

text \<open>The spec's example: expected A, B, C and persisted A, C, D.\<close>

theorem completeness_diff_witness:
  "finite {''A'', ''B'', ''C''} \<and> finite {''A'', ''C'', ''D''}
   \<and> validate_section_completeness ''Title 1'' {''A'', ''B'', ''C''} {''A'', ''C'', ''D''}
       = (False, [''B''], [''D''])
   \<and> set [''B''] = {''A'', ''B'', ''C''} - {''A'', ''C'', ''D''}
   \<and> set [''D''] = {''A'', ''C'', ''D''} - {''A'', ''B'', ''C''}"
  using completeness_diff [of "{''A'', ''B'', ''C''}" "{''A'', ''C'', ''D''}" "''Title 1''"]
        completeness_example
  by simp

subsection \<open>Resuming from the prior output\<close>

lemma find_line_start_at_newline: "bytes ! p = newline \<Longrightarrow> find_line_start bytes p = Suc p"
  by (cases p) simp_all

lemma find_line_start_in_line:
  assumes "newline \<notin> set line" and "k < length line" and "body = [] \<or> last body = newline"
  shows "find_line_start (body @ line @ rest) (length body + k) = length body"
  using assms(2)
proof (induction k)
  case 0
  then have first: "(body @ line @ rest) ! length body \<noteq> newline"
    using assms(1) by (metis append_Nil2 length_greater_0_conv nth_append_length_plus nth_append nth_mem add.right_neutral)
  show ?case
  proof (cases "length body")
    case 0
    with first show ?thesis by simp
  next
    case (Suc n)
    then have "body \<noteq> []" by auto
    with assms(3) have "last body = newline" by simp
    with Suc \<open>body \<noteq> []\<close> have "(body @ line @ rest) ! n = newline"
      by (simp add: last_conv_nth nth_append)
    then have "find_line_start (body @ line @ rest) n = Suc n"
      by (rule find_line_start_at_newline)
    with first Suc show ?thesis by simp
  qed
next
  case (Suc k)
  then have "k < length line" by simp
  have "(body @ line @ rest) ! (length body + Suc k) = line ! Suc k"
    using Suc.prems by (simp add: nth_append)
  moreover have "line ! Suc k \<noteq> newline"
    using assms(1) Suc.prems by (metis nth_mem)
  ultimately show ?case using Suc.IH[OF \<open>k < length line\<close>] by simp
qed

lemma readline_line: "newline \<notin> set line \<Longrightarrow> readline (line @ [newline]) = line @ [newline]"
  by (induction line) auto

lemma readline_no_newline: "newline \<notin> set line \<Longrightarrow> readline line = line"
  by (induction line) auto

lemma find_line_start_after_body:
  assumes "body \<noteq> []" and "last body = newline"
  shows "find_line_start (body @ rest) (length body - 1) = length body"
proof -
  have "(body @ rest) ! (length body - 1) = newline"
    using assms by (simp add: last_conv_nth nth_append)
  then have "find_line_start (body @ rest) (length body - 1) = Suc (length body - 1)"
    by (rule find_line_start_at_newline)
  with assms(1) show ?thesis by simp
qed

lemma start_of_last_line:
  assumes "newline \<notin> set line" and "body = [] \<or> last body = newline"
    and "end = [newline] \<or> end = [] \<and> line \<noteq> []"
  shows "(if length (body @ line @ end) < 2 then 0
          else find_line_start (body @ line @ end) (length (body @ line @ end) - 2)) = length body"
proof (cases "length (line @ end) < 2")
  case True
  show ?thesis
  proof (cases "body = []")
    case True
    with \<open>length (line @ end) < 2\<close> show ?thesis by simp
  next
    case False
    with assms(2) have nl: "last body = newline" by simp
    from assms(3) True have one: "length (line @ end) = 1" by (cases line) auto
    then have "length (body @ line @ end) - 2 = length body - 1" by simp
    moreover have "\<not> length (body @ line @ end) < 2"
      using False one by (cases body) simp_all
    ultimately show ?thesis
      using find_line_start_after_body[OF False nl, of "line @ end"] by (simp del: length_append)
  qed
next
  case False
  then have two: "2 \<le> length line + length end" by simp
  from assms(3) two have k: "length line + length end - 2 < length line" by auto
  then have "line \<noteq> []" by auto
  have "length (body @ line @ end) - 2 = length body + (length line + length end - 2)"
    using two by simp
  moreover have "find_line_start (body @ line @ end) (length body + (length line + length end - 2))
      = length body"
    using assms(1) k assms(2) by (rule find_line_start_in_line)
  moreover have "\<not> length (body @ line @ end) < 2"
    using two by simp
  ultimately show ?thesis by (simp del: length_append)
qed

lemma last_line_of_lines:
  assumes "newline \<notin> set line" and "body = [] \<or> last body = newline"
    and "end = [newline] \<or> end = [] \<and> line \<noteq> []"
  shows "last_line (body @ line @ end) = line @ end"
proof -
  have "readline (line @ end) = line @ end"
    using assms(1,3) by (auto simp: readline_line readline_no_newline)
  then show ?thesis
    unfolding last_line_def Let_def start_of_last_line[OF assms] by simp
qed

lemma split_at_last_newline:
  "\<exists>body line. rest = body @ line \<and> newline \<notin> set line \<and> (body = [] \<or> last body = newline)
     \<and> line = rev (takeWhile (\<lambda>c. c \<noteq> newline) (rev rest))"
proof -
  let ?P = "\<lambda>c. c \<noteq> newline"
  let ?line = "rev (takeWhile ?P (rev rest))"
  let ?body = "rev (dropWhile ?P (rev rest))"
  have "rev (takeWhile ?P (rev rest) @ dropWhile ?P (rev rest)) = rest"
    by simp
  then have "rest = ?body @ ?line"
    by (simp only: rev_append)
  moreover have "newline \<notin> set ?line"
    using set_takeWhileD[of newline ?P "rev rest"] by auto
  moreover have "?body = [] \<or> last ?body = newline"
  proof (cases "dropWhile ?P (rev rest) = []")
    case True
    then show ?thesis by simp
  next
    case False
    then have "\<not> ?P (hd (dropWhile ?P (rev rest)))" by (rule hd_dropWhile)
    with False show ?thesis by (simp add: last_rev)
  qed
  ultimately show ?thesis by blast
qed

lemma last_line_final_line:
  assumes "bytes \<noteq> []"
  shows "last_line bytes = final_line bytes"
proof (cases "last bytes = newline")
  case True
  obtain body line where s: "butlast bytes = body @ line" "newline \<notin> set line"
      "body = [] \<or> last body = newline"
      "line = rev (takeWhile (\<lambda>c. c \<noteq> newline) (rev (butlast bytes)))"
    using split_at_last_newline[of "butlast bytes"] by blast
  from assms True have "bytes = butlast bytes @ [newline]"
    by (metis append_butlast_last_id)
  with s(1) have "bytes = body @ line @ [newline]" by simp
  moreover have "last_line (body @ line @ [newline]) = line @ [newline]"
    using s(2,3) by (intro last_line_of_lines) simp_all
  ultimately show ?thesis
    using True s(4) by (simp add: final_line_def)
next
  case False
  obtain body line where s: "bytes = body @ line" "newline \<notin> set line"
      "body = [] \<or> last body = newline"
      "line = rev (takeWhile (\<lambda>c. c \<noteq> newline) (rev bytes))"
    using split_at_last_newline[of bytes] by blast
  have "line \<noteq> []"
  proof
    assume "line = []"
    with s(1,3) assms have "last bytes = newline" by auto
    with False show False by simp
  qed
  then have "last_line (body @ line @ []) = line @ []"
    using s(2,3) by (intro last_line_of_lines) simp_all
  with s(1) have "last_line bytes = line" by simp
  with False s(4) show ?thesis by (simp add: final_line_def)
qed

lemma newline_notin_cursor_line: "newline \<notin> set cursor_line"
  by (simp add: cursor_line_def newline_def)

text \<open>
  C9, as claimed, fails on a prior output that is not empty but whose last line holds
  no LexPath: for the one-line file \<^verbatim>\<open>{}\<close> the cursor is none and the output is opened
  in truncate mode, so the prior output is overwritten; for a file that ends in the
  cut-off line \<^verbatim>\<open>{\<close> decoding raises and no output is opened at all.
\<close>

theorem resume_without_lex_path:
  "''{}'' @ [newline] \<noteq> []
   \<and> last_line (''{}'' @ [newline]) = ''{}'' @ [newline]
   \<and> example_loads (''{}'' @ [newline]) = Some None
   \<and> get_last_lex_path example_loads (Some (''{}'' @ [newline])) = Inr None
   \<and> resume_setup example_loads (Some (''{}'' @ [newline])) True = Inr (None, Truncate)
   \<and> last_line (cursor_line @ [newline] @ ''{'') = ''{''
   \<and> example_loads ''{'' = None
   \<and> resume_setup example_loads (Some (cursor_line @ [newline] @ ''{'')) True
       = Inl JSON_decode_error"
proof -
  have l1: "last_line ([] @ ''{}'' @ [newline]) = ''{}'' @ [newline]"
    by (rule last_line_of_lines) (simp_all add: newline_def)
  have d1: "example_loads (''{}'' @ [newline]) = Some None"
    by (simp add: example_loads_def cursor_line_def)
  have l2: "last_line ((cursor_line @ [newline]) @ ''{'' @ []) = ''{'' @ []"
    by (rule last_line_of_lines) (simp_all add: newline_def)
  have d2: "example_loads ''{'' = None"
    by (simp add: example_loads_def cursor_line_def)
  from l1 d1 have g1: "get_last_lex_path example_loads (Some (''{}'' @ [newline])) = Inr None"
    by (simp add: get_last_lex_path_def)
  from l2 d2 have g2: "get_last_lex_path example_loads (Some (cursor_line @ [newline] @ ''{''))
      = Inl JSON_decode_error"
    by (simp add: get_last_lex_path_def)
  from l1 l2 d1 d2 g1 g2 show ?thesis
    by (simp add: resume_setup_def)
qed

text \<open>
  C9, amended. When resume is requested: if the prior output file does not exist or is
  empty, \<^verbatim>\<open>get_last_lex_path\<close> returns \<^verbatim>\<open>None\<close>, the cursor is none and the output is opened
  in truncate mode. Otherwise the line decoded is the last line of the file, whether
  or not the file ends in a newline (\<open>final_line\<close>), and there are three outcomes: the
  line decodes to a record with a LexPath, then the cursor is that LexPath and the
  output is opened in append mode; it decodes to a record without LexPath, then
  the cursor is none and the output is opened in truncate mode, as for a missing file;
  it does not decode, then \<^verbatim>\<open>get_last_lex_path\<close> raises and so does the run.
\<close>

theorem resume_degradation:
  "(file = None \<or> file = Some [] \<longrightarrow>
      get_last_lex_path loads_lex_path file = Inr None \<and>
      resume_setup loads_lex_path file True = Inr (None, Truncate))
   \<and> (file = Some bytes \<and> bytes \<noteq> [] \<longrightarrow>
        last_line bytes = final_line bytes
      \<and> (loads_lex_path (final_line bytes) = Some (Some c) \<longrightarrow>
           get_last_lex_path loads_lex_path file = Inr (Some c) \<and>
           resume_setup loads_lex_path file True = Inr (Some c, Append))
      \<and> (loads_lex_path (final_line bytes) = Some None \<longrightarrow>
           get_last_lex_path loads_lex_path file = Inr None \<and>
           resume_setup loads_lex_path file True = Inr (None, Truncate))
      \<and> (loads_lex_path (final_line bytes) = None \<longrightarrow>
           get_last_lex_path loads_lex_path file = Inl JSON_decode_error \<and>
           resume_setup loads_lex_path file True = Inl JSON_decode_error))"
proof (intro conjI impI)
  assume "file = None \<or> file = Some []"
  then show "get_last_lex_path loads_lex_path file = Inr None"
    by (auto simp: get_last_lex_path_def)
  then show "resume_setup loads_lex_path file True = Inr (None, Truncate)"
    by (simp add: resume_setup_def)
next
  assume a: "file = Some bytes \<and> bytes \<noteq> []"
  then show l: "last_line bytes = final_line bytes"
    by (simp add: last_line_final_line)
  {
    assume "loads_lex_path (final_line bytes) = Some (Some c)"
    with a l show g: "get_last_lex_path loads_lex_path file = Inr (Some c)"
      by (simp add: get_last_lex_path_def)
    then show "resume_setup loads_lex_path file True = Inr (Some c, Append)"
      by (simp add: resume_setup_def)
  }
  {
    assume "loads_lex_path (final_line bytes) = Some None"
    with a l show g: "get_last_lex_path loads_lex_path file = Inr None"
      by (simp add: get_last_lex_path_def)
    then show "resume_setup loads_lex_path file True = Inr (None, Truncate)"
      by (simp add: resume_setup_def)
  }
  {
    assume "loads_lex_path (final_line bytes) = None"
    with a l show g: "get_last_lex_path loads_lex_path file = Inl JSON_decode_error"
      by (simp add: get_last_lex_path_def)
    then show "resume_setup loads_lex_path file True = Inl JSON_decode_error"
      by (simp add: resume_setup_def)
  }
qed

text \<open>
  A missing file; a file of two lines whose last line is \<^verbatim>\<open>{"lex_path": [2, 1, 3]}\<close>,
  once ending in a newline and once not; the same file with a third line \<^verbatim>\<open>{}\<close>; and
  with a cut-off third line.
\<close>

theorem resume_degradation_witness:
  "resume_setup example_loads None True = Inr (None, Truncate)
   \<and> final_line (''{}'' @ [newline] @ cursor_line @ [newline]) = cursor_line @ [newline]
   \<and> resume_setup example_loads (Some (''{}'' @ [newline] @ cursor_line @ [newline])) True
       = Inr (Some [2, 1, 3], Append)
   \<and> final_line (''{}'' @ [newline] @ cursor_line) = cursor_line
   \<and> resume_setup example_loads (Some (''{}'' @ [newline] @ cursor_line)) True
       = Inr (Some [2, 1, 3], Append)
   \<and> final_line (cursor_line @ [newline] @ ''{}'' @ [newline]) = ''{}'' @ [newline]
   \<and> resume_setup example_loads (Some (cursor_line @ [newline] @ ''{}'' @ [newline])) True
       = Inr (None, Truncate)
   \<and> final_line (cursor_line @ [newline] @ ''{'') = ''{''
   \<and> resume_setup example_loads (Some (cursor_line @ [newline] @ ''{'')) True
       = Inl JSON_decode_error"
proof -
  have none: "resume_setup example_loads None True = Inr (None, Truncate)"
    using resume_degradation [of None example_loads] by simp
  have f1: "final_line (''{}'' @ [newline] @ cursor_line @ [newline]) = cursor_line @ [newline]"
    by code_simp
  have f2: "final_line (''{}'' @ [newline] @ cursor_line) = cursor_line"
    by code_simp
  have f3: "final_line (cursor_line @ [newline] @ ''{}'' @ [newline]) = ''{}'' @ [newline]"
    by code_simp
  have f4: "final_line (cursor_line @ [newline] @ ''{'') = ''{''"
    by code_simp
  have d1: "example_loads (cursor_line @ [newline]) = Some (Some [2, 1, 3])"
    and d2: "example_loads cursor_line = Some (Some [2, 1, 3])"
    and d3: "example_loads (''{}'' @ [newline]) = Some None"
    and d4: "example_loads ''{'' = None"
    by (simp_all add: example_loads_def cursor_line_def)
  have r1: "resume_setup example_loads (Some (''{}'' @ [newline] @ cursor_line @ [newline])) True
       = Inr (Some [2, 1, 3], Append)"
    using resume_degradation
            [of "Some (''{}'' @ [newline] @ cursor_line @ [newline])" example_loads
                "''{}'' @ [newline] @ cursor_line @ [newline]" "[2, 1, 3]"]
          f1 d1
    by simp
  have r2: "resume_setup example_loads (Some (''{}'' @ [newline] @ cursor_line)) True
       = Inr (Some [2, 1, 3], Append)"
    using resume_degradation
            [of "Some (''{}'' @ [newline] @ cursor_line)" example_loads
                "''{}'' @ [newline] @ cursor_line" "[2, 1, 3]"]
          f2 d2
    by simp
  have r3: "resume_setup example_loads (Some (cursor_line @ [newline] @ ''{}'' @ [newline])) True
       = Inr (None, Truncate)"
    using resume_degradation
            [of "Some (cursor_line @ [newline] @ ''{}'' @ [newline])" example_loads
                "cursor_line @ [newline] @ ''{}'' @ [newline]"]
          f3 d3
    by simp
  have r4: "resume_setup example_loads (Some (cursor_line @ [newline] @ ''{'')) True
       = Inl JSON_decode_error"
    using resume_degradation
            [of "Some (cursor_line @ [newline] @ ''{'')" example_loads
                "cursor_line @ [newline] @ ''{''"]
          f4 d4
    by simp
  from none f1 f2 f3 f4 r1 r2 r3 r4 show ?thesis by blast
qed

subsection \<open>The cases of \<^verbatim>\<open>scrape_branch\<close> and the records it writes\<close>

lemma scrape_branch_visited:
  "url \<in> visited_urls s \<Longrightarrow> scrape_branch upper site url path continue_from s = s"
  by (simp add: scrape_branch.simps)

lemma scrape_branch_failed:
  "url \<notin> visited_urls s \<Longrightarrow> site url = Fetch_failed \<Longrightarrow>
   scrape_branch upper site url path continue_from s =
     s\<lparr>visited_urls := insert url (visited_urls s),
       fetch_log := fetch_log s @ [(By_scrape_branch, url)],
       failed_log := failed_log s @ [Status_failure url]\<rparr>"
  by (simp add: scrape_branch.simps Let_def)

lemma scrape_branch_branch:
  "url \<notin> visited_urls s \<Longrightarrow> site url = Branch links \<Longrightarrow>
   scrape_branch upper site url path continue_from s =
     scrape_links upper site url path continue_from (start_index path continue_from) 0 links
       (s\<lparr>visited_urls := insert url (visited_urls s),
          fetch_log := fetch_log s @ [(By_scrape_branch, url)]\<rparr>)"
  by (simp add: scrape_branch.simps Let_def)

lemma scrape_branch_leaf:
  "url \<notin> visited_urls s \<Longrightarrow> site url = Leaf \<Longrightarrow>
   scrape_branch upper site url path continue_from s =
     (if truthy continue_from \<and> Some path = continue_from
      then s\<lparr>visited_urls := insert url (visited_urls s),
             fetch_log := fetch_log s @ [(By_scrape_branch, url)]\<rparr>
      else s\<lparr>visited_urls := insert url (visited_urls s),
             fetch_log := fetch_log s @ [(By_scrape_branch, url), (By_process_leaf, url)],
             jsonl := jsonl s @ [\<lparr>reg_url = url, lex_path = path\<rparr>]\<rparr>)"
  by (simp add: scrape_branch.simps Let_def process_regulation_leaf_def)

lemma scrape_branch_broken_leaf:
  "url \<notin> visited_urls s \<Longrightarrow> site url = Broken_leaf \<Longrightarrow>
   scrape_branch upper site url path continue_from s =
     (if truthy continue_from \<and> Some path = continue_from
      then s\<lparr>visited_urls := insert url (visited_urls s),
             fetch_log := fetch_log s @ [(By_scrape_branch, url)]\<rparr>
      else s\<lparr>visited_urls := insert url (visited_urls s),
             fetch_log := fetch_log s @ [(By_scrape_branch, url), (By_process_leaf, url)],
             failed_log := failed_log s @ [Leaf_error url]\<rparr>)"
  by (simp add: scrape_branch.simps Let_def process_regulation_leaf_def)

lemmas scrape_branch_cases =
  scrape_branch_failed scrape_branch_leaf scrape_branch_broken_leaf

lemma prefix_snoc_same:
  assumes "prefix (p @ [a]) q" and "prefix (p @ [b]) q"
  shows "a = b"
proof -
  from assms obtain r1 r2 where "q = p @ [a] @ r1" "q = p @ [b] @ r2"
    by (auto simp: prefix_def)
  then show ?thesis by simp
qed

lemma emitted_from_refl: "emitted_from path i s s"
  by (simp add: emitted_from_def)

lemma emitted_from_Suc: "emitted_from path (Suc i) s s' \<Longrightarrow> emitted_from path i s s'"
  unfolding emitted_from_def by (meson Suc_leD)

lemma emitted_from_warn:
  "emitted_from path i (s\<lparr>warnings := w\<rparr>) s' \<Longrightarrow> emitted_from path i s s'"
  by (simp add: emitted_from_def)

lemma emitted_step:
  assumes a: "emitted_under (path @ [int i]) s s1" and b: "emitted_from path (Suc i) s1 s2"
    and len: "length path < 20"
  shows "emitted_from path i s s2"
proof -
  from a obtain n1 where n1: "jsonl s1 = jsonl s @ n1" "distinct (map lex_path n1)"
    "\<forall>r \<in> set n1. prefix (path @ [int i]) (lex_path r) \<and> length (lex_path r) \<le> max 20 (length (path @ [int i]))"
    unfolding emitted_under_def by blast
  from b obtain n2 where n2: "jsonl s2 = jsonl s1 @ n2" "distinct (map lex_path n2)"
    "\<forall>r \<in> set n2. (\<exists>j\<ge>Suc i. prefix (path @ [int j]) (lex_path r)) \<and> length (lex_path r) \<le> 20"
    unfolding emitted_from_def by blast
  have disj: "lex_path ` set n1 \<inter> lex_path ` set n2 = {}"
  proof (rule ccontr)
    assume "lex_path ` set n1 \<inter> lex_path ` set n2 \<noteq> {}"
    then obtain r1 r2 where r: "r1 \<in> set n1" "r2 \<in> set n2" "lex_path r1 = lex_path r2" by auto
    from r n1(3) have p1: "prefix (path @ [int i]) (lex_path r2)" by auto
    from r n2(3) obtain j where j: "j \<ge> Suc i" "prefix (path @ [int j]) (lex_path r2)" by auto
    from prefix_snoc_same[OF p1 j(2)] j(1) show False by simp
  qed
  have "jsonl s2 = jsonl s @ (n1 @ n2)" using n1 n2 by simp
  moreover have "distinct (map lex_path (n1 @ n2))" using n1(2) n2(2) disj by simp
  moreover have "\<forall>r \<in> set (n1 @ n2). (\<exists>j\<ge>i. prefix (path @ [int j]) (lex_path r)) \<and> length (lex_path r) \<le> 20"
  proof
    fix r assume "r \<in> set (n1 @ n2)"
    then consider "r \<in> set n1" | "r \<in> set n2" by auto
    then show "(\<exists>j\<ge>i. prefix (path @ [int j]) (lex_path r)) \<and> length (lex_path r) \<le> 20"
    proof cases
      case 1
      with n1(3) have "prefix (path @ [int i]) (lex_path r)"
        and "length (lex_path r) \<le> max 20 (length (path @ [int i]))" by auto
      with len show ?thesis by auto
    next
      case 2
      with n2(3) show ?thesis by (meson Suc_leD)
    qed
  qed
  ultimately show ?thesis unfolding emitted_from_def by blast
qed

lemma emitted_under_of_from:
  assumes "emitted_from path 0 s1 s'" and "jsonl s1 = jsonl s"
  shows "emitted_under path s s'"
proof -
  from assms obtain new where n: "jsonl s' = jsonl s @ new" "distinct (map lex_path new)"
    "\<forall>r \<in> set new. (\<exists>j\<ge>0. prefix (path @ [int j]) (lex_path r)) \<and> length (lex_path r) \<le> 20"
    unfolding emitted_from_def by auto
  have "\<forall>r \<in> set new. prefix path (lex_path r) \<and> length (lex_path r) \<le> max 20 (length path)"
    using n(3) by (fastforce dest: append_prefixD)
  with n show ?thesis unfolding emitted_under_def by blast
qed

lemma emitted_under_leaf_step:
  "emitted_under path s
     (s\<lparr>visited_urls := v, fetch_log := f, jsonl := jsonl s @ [\<lparr>reg_url = u, lex_path = path\<rparr>]\<rparr>)"
  by (simp add: emitted_under_def)

lemma emitted_under_same:
  "jsonl s' = jsonl s \<Longrightarrow> emitted_under path s s'"
  by (simp add: emitted_under_def)

lemma emitted_records:
  "emitted_under path s (scrape_branch upper site url path continue_from s)"
  "emitted_from path i s (scrape_links upper site url path continue_from start_idx i links s)"
proof (induction upper site url path continue_from s and upper site url path continue_from start_idx i links s
       rule: scrape_branch_scrape_links.induct)
  case (1 upper site url path continue_from s)
  show ?case
  proof (cases "url \<in> visited_urls s")
    case True
    then show ?thesis by (simp add: scrape_branch_visited emitted_under_same)
  next
    case False
    let ?s1 = "s\<lparr>visited_urls := insert url (visited_urls s),
               fetch_log := fetch_log s @ [(By_scrape_branch, url)]\<rparr>"
    show ?thesis
    proof (cases "site url")
      case Fetch_failed
      show ?thesis
        unfolding scrape_branch_failed[where site = site and url = url, OF False Fetch_failed]
        by (rule emitted_under_same) simp
    next
      case (Branch links)
      from 1[OF False refl Branch]
      have "emitted_from path 0 ?s1
              (scrape_links upper site url path continue_from (start_index path continue_from) 0 links ?s1)" .
      then have "emitted_under path s
              (scrape_links upper site url path continue_from (start_index path continue_from) 0 links ?s1)"
        by (rule emitted_under_of_from) simp
      then show ?thesis
        unfolding scrape_branch_branch[where site = site and url = url, OF False Branch] .
    next
      case Leaf
      show ?thesis
        unfolding scrape_branch_leaf[where site = site and url = url, OF False Leaf]
        by (simp add: emitted_under_same emitted_under_def)
    next
      case Broken_leaf
      show ?thesis
        unfolding scrape_branch_broken_leaf[where site = site and url = url, OF False Broken_leaf]
        by (simp add: emitted_under_same)
    qed
  qed
next
  case (2 upper site url path continue_from start_idx i s)
  show ?case by (simp add: emitted_from_refl)
next
  case (3 upper site url path continue_from start_idx i l ls s)
  consider (skip) "int i < start_idx"
    | (excl) "\<not> int i < start_idx" "is_reserved_or_repealed upper (link_text l)"
    | (malf) "\<not> int i < start_idx" "\<not> is_reserved_or_repealed upper (link_text l)" "malformed_href (href l)"
    | (deep) "\<not> int i < start_idx" "\<not> is_reserved_or_repealed upper (link_text l)" "\<not> malformed_href (href l)"
        "20 \<le> length path"
    | (rec) "\<not> int i < start_idx" "\<not> is_reserved_or_repealed upper (link_text l)" "\<not> malformed_href (href l)"
        "\<not> 20 \<le> length path"
    by blast
  then show ?case
  proof cases
    case skip
    from 3(1)[OF skip] have "emitted_from path i s
        (scrape_links upper site url path continue_from start_idx (Suc i) ls s)"
      by (rule emitted_from_Suc)
    with skip show ?thesis by simp
  next
    case excl
    from 3(2)[OF excl] have "emitted_from path i s
        (scrape_links upper site url path continue_from start_idx (Suc i) ls s)"
      by (rule emitted_from_Suc)
    with excl show ?thesis by simp
  next
    case malf
    have "emitted_from path i s
        (scrape_links upper site url path continue_from start_idx (Suc i) ls
           (s\<lparr>warnings := warnings s @ [Malformed_url (site_url @ href l)]\<rparr>))"
      by (rule emitted_from_Suc, rule emitted_from_warn, rule 3(3)[OF malf])
    with malf show ?thesis by simp
  next
    case deep
    then show ?thesis by (simp add: emitted_from_def)
  next
    case rec
    from rec(4) have len: "length path < 20" by simp
    have "emitted_from path i s
        (scrape_links upper site url path continue_from start_idx (Suc i) ls
          (scrape_branch upper site (site_url @ href l) (path @ [int i])
             (if truthy continue_from \<and> start_idx < int i then None else continue_from) s))"
      by (rule emitted_step[OF 3(4)[OF rec] 3(5)[OF rec] len])
    with rec show ?thesis by simp
  qed
qed


lemma worker_emitted:
  "emitted_from [] i s (worker upper site (enqueue start_branch_idx continue_from i links) s)"
proof (induction links arbitrary: i s)
  case Nil
  show ?case by (simp add: emitted_from_refl)
next
  case (Cons l ls)
  show ?case
  proof (cases "int i < start_branch_idx")
    case True
    have "emitted_from [] i s (worker upper site (enqueue start_branch_idx continue_from (Suc i) ls) s)"
      by (rule emitted_from_Suc) (rule Cons.IH)
    with True show ?thesis by simp
  next
    case False
    let ?cf = "if int i = start_branch_idx \<and> truthy continue_from then continue_from else None"
    let ?s1 = "scrape_branch upper site (site_url @ href l) [int i] ?cf s"
    have a: "emitted_under ([] @ [int i]) s ?s1"
      using emitted_records(1)[of "[int i]" s upper site "site_url @ href l" ?cf] by simp
    have b: "emitted_from [] (Suc i) ?s1
               (worker upper site (enqueue start_branch_idx continue_from (Suc i) ls) ?s1)"
      by (rule Cons.IH)
    have "emitted_from [] i s (worker upper site (enqueue start_branch_idx continue_from (Suc i) ls) ?s1)"
      by (rule emitted_step[OF a b]) simp
    with False show ?thesis by simp
  qed
qed

lemma crawl_emitted:
  "distinct (map lex_path (jsonl (crawl upper site state_init_url continue_from))) \<and>
   (\<forall>r \<in> set (jsonl (crawl upper site state_init_url continue_from)). length (lex_path r) \<le> 20)"
proof (cases "site state_init_url")
  case (Branch all_links)
  let ?s0 = "initial_state\<lparr>fetch_log := [(By_collect, state_init_url)]\<rparr>"
  obtain sbi links where c: "crawl upper site state_init_url continue_from =
      worker upper site (enqueue sbi continue_from 0 links) ?s0"
    using Branch by (simp add: crawl_def Let_def)
  have "emitted_from [] 0 ?s0 (worker upper site (enqueue sbi continue_from 0 links) ?s0)"
    by (rule worker_emitted)
  then show ?thesis
    unfolding c emitted_from_def by (auto simp: initial_state_def)
qed (simp_all add: crawl_def initial_state_def)


subsection \<open>The example site, crawled\<close>

lemma demo_full:
  "crawl ascii_upper demo_site montana None =
   \<lparr>visited_urls =
      {''https://regulations.justia.com/t3/r9/'', ''https://regulations.justia.com/t3/'',
       ''https://regulations.justia.com/t1/r2/'', ''https://regulations.justia.com/t1/r1/'',
       ''https://regulations.justia.com/t1/''},
    jsonl =
      [\<lparr>reg_url = ''https://regulations.justia.com/t1/r1/'', lex_path = [0, 0]\<rparr>,
       \<lparr>reg_url = ''https://regulations.justia.com/t1/r2/'', lex_path = [0, 1]\<rparr>,
       \<lparr>reg_url = ''https://regulations.justia.com/t3/r9/'', lex_path = [1, 1]\<rparr>],
    failed_log = [], warnings = [],
    fetch_log =
      [(By_collect, ''https://regulations.justia.com/states/montana/''),
       (By_scrape_branch, ''https://regulations.justia.com/t1/''),
       (By_scrape_branch, ''https://regulations.justia.com/t1/r1/''),
       (By_process_leaf, ''https://regulations.justia.com/t1/r1/''),
       (By_scrape_branch, ''https://regulations.justia.com/t1/r2/''),
       (By_process_leaf, ''https://regulations.justia.com/t1/r2/''),
       (By_scrape_branch, ''https://regulations.justia.com/t3/''),
       (By_scrape_branch, ''https://regulations.justia.com/t3/r9/''),
       (By_process_leaf, ''https://regulations.justia.com/t3/r9/'')]\<rparr>"
  by code_simp

subsection \<open>LexPaths are unique\<close>

text \<open>
  C6. Within one crawl run no two emitted records carry the same LexPath: the paths
  of the records written by \<^verbatim>\<open>collect_regulations_for_state\<close>, for any site and with or
  without a cursor, are pairwise different (each call extends its path by the sibling
  index, and the indices under one parent differ).
\<close>

theorem lexpath_unique:
  "distinct (map lex_path (jsonl (crawl upper site state_init_url continue_from)))"
  using crawl_emitted [of upper site state_init_url continue_from] by (rule conjunct1)

text \<open>The example site: three records, at \<open>[0, 0]\<close>, \<open>[0, 1]\<close> and \<open>[1, 1]\<close>.\<close>

theorem lexpath_unique_witness:
  "map lex_path (jsonl (crawl ascii_upper demo_site montana None)) = [[0, 0], [0, 1], [1, 1]]
   \<and> distinct (map lex_path (jsonl (crawl ascii_upper demo_site montana None)))"
  using lexpath_unique [of ascii_upper demo_site montana None] by (simp add: demo_full)

subsection \<open>The depth ceiling\<close>

lemma ex_nth_Cons:
  "(\<exists>k<length (l # ls). P k ((l # ls) ! k)) \<longleftrightarrow> P 0 l \<or> (\<exists>k<length ls. P (Suc k) (ls ! k))"
proof
  assume "\<exists>k<length (l # ls). P k ((l # ls) ! k)"
  then obtain k where k: "k < length (l # ls)" "P k ((l # ls) ! k)" by blast
  show "P 0 l \<or> (\<exists>k<length ls. P (Suc k) (ls ! k))"
  proof (cases k)
    case 0
    with k show ?thesis by simp
  next
    case (Suc j)
    with k have "j < length ls" "P (Suc j) (ls ! j)" by simp_all
    then show ?thesis by blast
  qed
next
  assume "P 0 l \<or> (\<exists>k<length ls. P (Suc k) (ls ! k))"
  then show "\<exists>k<length (l # ls). P k ((l # ls) ! k)"
  proof
    assume "P 0 l"
    then have "0 < length (l # ls) \<and> P 0 ((l # ls) ! 0)" by simp
    then show ?thesis by blast
  next
    assume "\<exists>k<length ls. P (Suc k) (ls ! k)"
    then obtain k where "k < length ls" "P (Suc k) (ls ! k)" by blast
    then have "Suc k < length (l # ls) \<and> P (Suc k) ((l # ls) ! Suc k)" by simp
    then show ?thesis by blast
  qed
qed

lemma deep_links:
  assumes "20 \<le> length path"
  shows "\<exists>ws. scrape_links upper site url path continue_from start_idx i links s
                = s\<lparr>warnings := warnings s @ ws\<rparr>
             \<and> (Excessive_depth (length path) url \<in> set ws
                  \<longleftrightarrow> (\<exists>k<length links. followed upper start_idx (i + k) (links ! k)))"
proof (induction links arbitrary: i s)
  case Nil
  have "scrape_links upper site url path continue_from start_idx i [] s = s\<lparr>warnings := warnings s @ []\<rparr>"
    by simp
  then show ?case by fastforce
next
  case (Cons l ls)
  have shift: "(\<exists>k<length (l # ls). followed upper start_idx (i + k) ((l # ls) ! k))
      \<longleftrightarrow> followed upper start_idx i l \<or> (\<exists>k<length ls. followed upper start_idx (Suc i + k) (ls ! k))"
    using ex_nth_Cons[of l ls "\<lambda>k. followed upper start_idx (i + k)"] by simp
  show ?case
  proof (cases "followed upper start_idx i l")
    case True
    then have "scrape_links upper site url path continue_from start_idx i (l # ls) s
        = s\<lparr>warnings := warnings s @ [Excessive_depth (length path) url]\<rparr>"
      using assms by (simp add: followed_def)
    moreover have "Excessive_depth (length path) url \<in> set [Excessive_depth (length path) url]"
      by simp
    ultimately show ?thesis using True shift by blast
  next
    case False
    show ?thesis
    proof (cases "malformed_href (href l) \<and> \<not> int i < start_idx \<and> \<not> is_reserved_or_repealed upper (link_text l)")
      case True
      let ?s1 = "s\<lparr>warnings := warnings s @ [Malformed_url (site_url @ href l)]\<rparr>"
      from Cons.IH[of "Suc i" ?s1] obtain ws where
        ws: "scrape_links upper site url path continue_from start_idx (Suc i) ls ?s1
               = ?s1\<lparr>warnings := warnings ?s1 @ ws\<rparr>"
            "Excessive_depth (length path) url \<in> set ws
               \<longleftrightarrow> (\<exists>k<length ls. followed upper start_idx (Suc i + k) (ls ! k))"
        by blast
      have "scrape_links upper site url path continue_from start_idx i (l # ls) s
          = s\<lparr>warnings := warnings s @ (Malformed_url (site_url @ href l) # ws)\<rparr>"
        using True ws(1) by simp
      moreover have "Excessive_depth (length path) url \<in> set (Malformed_url (site_url @ href l) # ws)
          \<longleftrightarrow> (\<exists>k<length (l # ls). followed upper start_idx (i + k) ((l # ls) ! k))"
        using ws(2) False shift by simp
      ultimately show ?thesis by blast
    next
      case nm: False
      from Cons.IH[of "Suc i" s] obtain ws where
        ws: "scrape_links upper site url path continue_from start_idx (Suc i) ls s
               = s\<lparr>warnings := warnings s @ ws\<rparr>"
            "Excessive_depth (length path) url \<in> set ws
               \<longleftrightarrow> (\<exists>k<length ls. followed upper start_idx (Suc i + k) (ls ! k))"
        by blast
      have "scrape_links upper site url path continue_from start_idx i (l # ls) s
          = scrape_links upper site url path continue_from start_idx (Suc i) ls s"
        using False nm by (auto simp: followed_def)
      with ws shift False show ?thesis by metis
    qed
  qed
qed


lemma deep_reserved_example:
  "warnings (scrape_branch ascii_upper deep_site ''https://regulations.justia.com/a/'' deep_path None
               initial_state) = []"
  by code_simp

lemma deep_site_pages:
  "deep_site ''https://regulations.justia.com/a/''
     = Branch [\<lparr>link_text = ''Part 1 (Reserved)'', href = ''/a/1/''\<rparr>]"
  "deep_site ''https://regulations.justia.com/b/''
     = Branch [\<lparr>link_text = ''Part 1'', href = ''/b/1/''\<rparr>]"
  by (simp_all add: deep_site_def)

lemma part_1_followed: "followed ascii_upper 0 0 \<lparr>link_text = ''Part 1'', href = ''/b/1/''\<rparr>"
  by code_simp

text \<open>
  C5 as stated fails: a branch page met at a path of length 20 whose only child is
  reserved is left without any warning.
\<close>

theorem depth_warning_counterexample:
  "deep_site ''https://regulations.justia.com/a/''
     = Branch [\<lparr>link_text = ''Part 1 (Reserved)'', href = ''/a/1/''\<rparr>]
   \<and> 20 \<le> length deep_path
   \<and> ''https://regulations.justia.com/a/'' \<notin> visited_urls initial_state
   \<and> warnings (scrape_branch ascii_upper deep_site ''https://regulations.justia.com/a/'' deep_path None
                 initial_state) = []"
proof -
  have "20 \<le> length deep_path"
    by (simp add: deep_path_def)
  moreover have "''https://regulations.justia.com/a/'' \<notin> visited_urls initial_state"
    by (simp add: initial_state_def)
  ultimately show ?thesis
    using deep_site_pages(1) deep_reserved_example by blast
qed

text \<open>
  C5, amended. At a branch node whose path has length 20 or more, \<^verbatim>\<open>scrape_branch\<close>
  recurses into no child: beyond visiting and fetching the branch page itself it only
  adds warnings. The depth warning is among them iff the page has a link that the
  loop does not skip (index not below the resume index, text not excluded, href not
  malformed). No record that a crawl emits has a LexPath longer than 20.
\<close>

theorem depth_ceiling:
  "(site url = Branch links \<and> url \<notin> visited_urls s \<and> 20 \<le> length path \<longrightarrow>
      (\<exists>ws. scrape_branch upper site url path continue_from s =
               s\<lparr>visited_urls := insert url (visited_urls s),
                  fetch_log := fetch_log s @ [(By_scrape_branch, url)],
                  warnings := warnings s @ ws\<rparr>
           \<and> (Excessive_depth (length path) url \<in> set ws \<longleftrightarrow>
                (\<exists>k<length links. followed upper (start_index path continue_from) k (links ! k)))))
   \<and> (\<forall>r \<in> set (jsonl (crawl upper top_site state_init_url top_continue_from)).
         length (lex_path r) \<le> 20)"
proof (intro conjI impI)
  assume a: "site url = Branch links \<and> url \<notin> visited_urls s \<and> 20 \<le> length path"
  let ?s1 = "s\<lparr>visited_urls := insert url (visited_urls s),
               fetch_log := fetch_log s @ [(By_scrape_branch, url)]\<rparr>"
  from a have "20 \<le> length path" by simp
  from deep_links[OF this, of upper site url continue_from "start_index path continue_from" 0 links ?s1]
  obtain ws where ws:
    "scrape_links upper site url path continue_from (start_index path continue_from) 0 links ?s1
       = ?s1\<lparr>warnings := warnings ?s1 @ ws\<rparr>"
    "Excessive_depth (length path) url \<in> set ws
       \<longleftrightarrow> (\<exists>k<length links. followed upper (start_index path continue_from) k (links ! k))"
    by auto
  from a have "scrape_branch upper site url path continue_from s =
      scrape_links upper site url path continue_from (start_index path continue_from) 0 links ?s1"
    by (simp add: scrape_branch_branch)
  with ws(1) have "scrape_branch upper site url path continue_from s =
      s\<lparr>visited_urls := insert url (visited_urls s),
        fetch_log := fetch_log s @ [(By_scrape_branch, url)],
        warnings := warnings s @ ws\<rparr>"
    by simp
  with ws(2) show "\<exists>ws. scrape_branch upper site url path continue_from s =
               s\<lparr>visited_urls := insert url (visited_urls s),
                  fetch_log := fetch_log s @ [(By_scrape_branch, url)],
                  warnings := warnings s @ ws\<rparr>
           \<and> (Excessive_depth (length path) url \<in> set ws \<longleftrightarrow>
                (\<exists>k<length links. followed upper (start_index path continue_from) k (links ! k)))"
    by blast
next
  show "\<forall>r \<in> set (jsonl (crawl upper top_site state_init_url top_continue_from)).
         length (lex_path r) \<le> 20"
    using crawl_emitted [of upper top_site state_init_url top_continue_from] by (rule conjunct2)
qed

text \<open>
  A branch page at depth 20 with a child that would be followed: the warning is
  logged and nothing else happens. The records of the example site are short.
\<close>

theorem depth_ceiling_witness:
  "deep_site ''https://regulations.justia.com/b/''
     = Branch [\<lparr>link_text = ''Part 1'', href = ''/b/1/''\<rparr>]
   \<and> ''https://regulations.justia.com/b/'' \<notin> visited_urls initial_state
   \<and> 20 \<le> length deep_path
   \<and> (\<exists>ws. scrape_branch ascii_upper deep_site ''https://regulations.justia.com/b/'' deep_path None
             initial_state =
             initial_state\<lparr>visited_urls :=
                              insert ''https://regulations.justia.com/b/''
                                (visited_urls initial_state),
                            fetch_log := fetch_log initial_state
                              @ [(By_scrape_branch, ''https://regulations.justia.com/b/'')],
                            warnings := warnings initial_state @ ws\<rparr>
          \<and> Excessive_depth (length deep_path) ''https://regulations.justia.com/b/'' \<in> set ws)
   \<and> list_all (\<lambda>r. length (lex_path r) \<le> 20) (jsonl (crawl ascii_upper demo_site montana None))"
proof -
  have h: "deep_site ''https://regulations.justia.com/b/''
             = Branch [\<lparr>link_text = ''Part 1'', href = ''/b/1/''\<rparr>]
           \<and> ''https://regulations.justia.com/b/'' \<notin> visited_urls initial_state
           \<and> 20 \<le> length deep_path"
    by (simp add: deep_site_pages deep_path_def initial_state_def)
  have f: "\<exists>k<length [\<lparr>link_text = ''Part 1'', href = ''/b/1/''\<rparr>].
             followed ascii_upper (start_index deep_path None) k
               ([\<lparr>link_text = ''Part 1'', href = ''/b/1/''\<rparr>] ! k)"
    using part_1_followed by (simp add: start_index_def)
  from depth_ceiling
         [where upper = ascii_upper and site = deep_site
            and url = "''https://regulations.justia.com/b/''"
            and links = "[\<lparr>link_text = ''Part 1'', href = ''/b/1/''\<rparr>]"
            and s = initial_state and path = deep_path and continue_from = None
            and top_site = demo_site and state_init_url = montana and top_continue_from = None]
       h f
  show ?thesis unfolding list_all_iff by blast
qed

subsection \<open>Cycles and the visited set\<close>

lemma log_inv_visit:
  assumes "log_inv s" and "url \<notin> visited_urls s"
  shows "log_inv (s\<lparr>visited_urls := insert url (visited_urls s),
                   fetch_log := fetch_log s @ [(By_scrape_branch, url)]\<rparr>)"
    and "log_inv (s\<lparr>visited_urls := insert url (visited_urls s),
                   fetch_log := fetch_log s @ [(By_scrape_branch, url), (By_process_leaf, url)],
                   jsonl := j\<rparr>)"
    and "log_inv (s\<lparr>visited_urls := insert url (visited_urls s),
                   fetch_log := fetch_log s @ [(By_scrape_branch, url), (By_process_leaf, url)],
                   failed_log := f\<rparr>)"
    and "log_inv (s\<lparr>visited_urls := insert url (visited_urls s),
                   fetch_log := fetch_log s @ [(By_scrape_branch, url)],
                   failed_log := f\<rparr>)"
  using assms unfolding log_inv_def by auto

lemma log_inv_warn: "log_inv (s\<lparr>warnings := w\<rparr>) = log_inv s"
  by (simp add: log_inv_def)

lemma log_inv_scrape:
  "log_inv s \<Longrightarrow> log_inv (scrape_branch upper site url path continue_from s)"
  "log_inv s \<Longrightarrow> log_inv (scrape_links upper site url path continue_from start_idx i links s)"
proof (induction upper site url path continue_from s and upper site url path continue_from start_idx i links s
       rule: scrape_branch_scrape_links.induct)
  case (1 upper site url path continue_from s)
  show ?case
  proof (cases "url \<in> visited_urls s")
    case True
    with 1(2) show ?thesis by (simp add: scrape_branch_visited)
  next
    case False
    note v = log_inv_visit[OF 1(2) False]
    show ?thesis
    proof (cases "site url")
      case Fetch_failed
      show ?thesis
        unfolding scrape_branch_failed[where site = site and url = url, OF False Fetch_failed]
        by (rule v(4))
    next
      case (Branch links)
      show ?thesis
        unfolding scrape_branch_branch[where site = site and url = url, OF False Branch]
        by (rule 1(1)[OF False refl Branch v(1)])
    next
      case Leaf
      show ?thesis
        unfolding scrape_branch_leaf[where site = site and url = url, OF False Leaf]
        using v(1) v(2) by simp
    next
      case Broken_leaf
      show ?thesis
        unfolding scrape_branch_broken_leaf[where site = site and url = url, OF False Broken_leaf]
        using v(1) v(3) by simp
    qed
  qed
next
  case (2 upper site url path continue_from start_idx i s)
  then show ?case by simp
next
  case (3 upper site url path continue_from start_idx i l ls s)
  note inv = 3(6)
  consider (skip) "int i < start_idx"
    | (excl) "\<not> int i < start_idx" "is_reserved_or_repealed upper (link_text l)"
    | (malf) "\<not> int i < start_idx" "\<not> is_reserved_or_repealed upper (link_text l)" "malformed_href (href l)"
    | (deep) "\<not> int i < start_idx" "\<not> is_reserved_or_repealed upper (link_text l)" "\<not> malformed_href (href l)"
        "20 \<le> length path"
    | (rec) "\<not> int i < start_idx" "\<not> is_reserved_or_repealed upper (link_text l)" "\<not> malformed_href (href l)"
        "\<not> 20 \<le> length path"
    by blast
  then show ?case
  proof cases
    case skip
    with 3(1)[OF skip inv] show ?thesis by simp
  next
    case excl
    with 3(2)[OF excl inv] show ?thesis by simp
  next
    case malf
    have "log_inv (s\<lparr>warnings := warnings s @ [Malformed_url (site_url @ href l)]\<rparr>)"
      using inv by (simp add: log_inv_warn)
    from 3(3)[OF malf this] malf show ?thesis by simp
  next
    case deep
    with inv show ?thesis by (simp add: log_inv_warn)
  next
    case rec
    from 3(5)[OF rec 3(4)[OF rec inv]] rec show ?thesis by simp
  qed
qed

lemma log_inv_worker: "log_inv s \<Longrightarrow> log_inv (worker upper site jobs s)"
proof (induction jobs arbitrary: s)
  case Nil
  then show ?case by simp
next
  case (Cons job jobs)
  obtain h p c d where job: "job = (h, p, c, d)" by (cases job) auto
  show ?case unfolding job using Cons by (simp add: log_inv_scrape(1))
qed

lemma log_inv_crawl: "log_inv (crawl upper site state_init_url continue_from)"
proof -
  have "log_inv (initial_state\<lparr>fetch_log := [(By_collect, state_init_url)]\<rparr>)"
    by (simp add: log_inv_def initial_state_def)
  then show ?thesis
    by (auto simp: crawl_def Let_def log_inv_worker split: page.splits)
qed


lemma cycle_full:
  "crawl ascii_upper cycle_site montana None =
   \<lparr>visited_urls =
      {''https://regulations.justia.com/t1/r1/'', ''https://regulations.justia.com/t1/''},
    jsonl = [\<lparr>reg_url = ''https://regulations.justia.com/t1/r1/'', lex_path = [0, 0]\<rparr>],
    failed_log = [], warnings = [],
    fetch_log =
      [(By_collect, ''https://regulations.justia.com/states/montana/''),
       (By_scrape_branch, ''https://regulations.justia.com/t1/''),
       (By_scrape_branch, ''https://regulations.justia.com/t1/r1/''),
       (By_process_leaf, ''https://regulations.justia.com/t1/r1/'')]\<rparr>"
  by code_simp

text \<open>
  C4 as stated fails: in the crawl of the example site the URL of the first rule is
  fetched twice, by \<^verbatim>\<open>scrape_branch\<close> (line 506) to classify the page and by
  \<^verbatim>\<open>process_regulation_leaf\<close> (line 281) to extract it.
\<close>

theorem leaf_fetched_twice:
  "(By_scrape_branch, ''https://regulations.justia.com/t1/r1/'')
     \<in> set (fetch_log (crawl ascii_upper demo_site montana None))
   \<and> (By_process_leaf, ''https://regulations.justia.com/t1/r1/'')
     \<in> set (fetch_log (crawl ascii_upper demo_site montana None))
   \<and> count_list (map snd (fetch_log (crawl ascii_upper demo_site montana None)))
        ''https://regulations.justia.com/t1/r1/'' = 2"
  by (simp add: demo_full)

text \<open>
  C4, amended. \<^verbatim>\<open>scrape_branch\<close> and its loop are total for every site, cyclic or not
  (the termination proof of their definition: the path grows with every call and no
  call is made below a path of length 20). In one run no function fetches a URL
  twice: \<^verbatim>\<open>scrape_branch\<close> fetches each absolute URL at most once, and
  \<^verbatim>\<open>process_regulation_leaf\<close> fetches each leaf at most once more. A call of
  \<^verbatim>\<open>scrape_branch\<close> on a URL that is in the visited set returns the state unchanged.
\<close>

theorem no_duplicate_visit:
  "distinct (fetch_log (crawl upper site state_init_url top_continue_from))
   \<and> (url \<in> visited_urls s \<longrightarrow> scrape_branch upper site url path continue_from s = s)"
proof
  show "distinct (fetch_log (crawl upper site state_init_url top_continue_from))"
    using log_inv_crawl [of upper site state_init_url top_continue_from] by (simp add: log_inv_def)
  show "url \<in> visited_urls s \<longrightarrow> scrape_branch upper site url path continue_from s = s"
    by (simp add: scrape_branch_visited)
qed

text \<open>
  The site with a cycle: the title page is fetched once, and meeting it again below
  itself changes nothing.
\<close>

theorem no_duplicate_visit_witness:
  "fetch_log (crawl ascii_upper cycle_site montana None) =
      [(By_collect, ''https://regulations.justia.com/states/montana/''),
       (By_scrape_branch, ''https://regulations.justia.com/t1/''),
       (By_scrape_branch, ''https://regulations.justia.com/t1/r1/''),
       (By_process_leaf, ''https://regulations.justia.com/t1/r1/'')]
   \<and> distinct (fetch_log (crawl ascii_upper cycle_site montana None))
   \<and> ''https://regulations.justia.com/t1/'' \<in> visited_urls (crawl ascii_upper cycle_site montana None)
   \<and> scrape_branch ascii_upper cycle_site ''https://regulations.justia.com/t1/'' [0, 1] None
        (crawl ascii_upper cycle_site montana None) = crawl ascii_upper cycle_site montana None"
proof -
  have v: "''https://regulations.justia.com/t1/'' \<in> visited_urls (crawl ascii_upper cycle_site montana None)"
    by (simp add: cycle_full)
  have f: "fetch_log (crawl ascii_upper cycle_site montana None) =
      [(By_collect, ''https://regulations.justia.com/states/montana/''),
       (By_scrape_branch, ''https://regulations.justia.com/t1/''),
       (By_scrape_branch, ''https://regulations.justia.com/t1/r1/''),
       (By_process_leaf, ''https://regulations.justia.com/t1/r1/'')]"
    by (simp add: cycle_full)
  from no_duplicate_visit
         [of ascii_upper cycle_site montana None "''https://regulations.justia.com/t1/''"
             "crawl ascii_upper cycle_site montana None" "[0, 1]" None]
       v f
  show ?thesis by blast
qed

subsection \<open>Excluded links\<close>

lemma contains_iff_sublist: "contains sub s \<longleftrightarrow> sublist sub s"
  by (induction s) (simp_all add: sublist_Cons_right)

lemma reserved_subsumes:
  assumes "sublist ''(RESERVED)'' x"
  shows "sublist ''RESERVED'' x"
proof -
  have "sublist ''RESERVED'' ''(RESERVED)''"
    using sublist_appendI[of "''RESERVED''" "''(''" "'')''"] by simp
  then show ?thesis using assms by (rule sublist_order.order_trans)
qed

lemma is_reserved_or_repealed_iff:
  "is_reserved_or_repealed upper t \<longleftrightarrow>
     sublist ''(REPEALED)'' (upper t) \<or> sublist ''RESERVED'' (upper t)"
  using reserved_subsumes[of "upper t"]
  by (auto simp: is_reserved_or_repealed_def Let_def contains_iff_sublist)

lemma targets_inv_visit:
  assumes "targets_inv upper site s" and "url \<in> link_targets upper site"
  shows "targets_inv upper site (s\<lparr>visited_urls := v,
                   fetch_log := fetch_log s @ [(By_scrape_branch, url)]\<rparr>)"
    and "targets_inv upper site (s\<lparr>visited_urls := v,
                   fetch_log := fetch_log s @ [(By_scrape_branch, url), (By_process_leaf, url)],
                   jsonl := jsonl s @ [\<lparr>reg_url = url, lex_path = p\<rparr>]\<rparr>)"
    and "targets_inv upper site (s\<lparr>visited_urls := v,
                   fetch_log := fetch_log s @ [(By_scrape_branch, url), (By_process_leaf, url)],
                   failed_log := failed_log s @ [Leaf_error url]\<rparr>)"
    and "targets_inv upper site (s\<lparr>visited_urls := v,
                   fetch_log := fetch_log s @ [(By_scrape_branch, url)],
                   failed_log := failed_log s @ [Status_failure url]\<rparr>)"
  using assms unfolding targets_inv_def by auto

lemma targets_inv_warn: "targets_inv upper site (s\<lparr>warnings := w\<rparr>) = targets_inv upper site s"
  by (simp add: targets_inv_def)

lemma link_targetsI:
  "site u = Branch all_links \<Longrightarrow> l \<in> set all_links \<Longrightarrow> \<not> is_reserved_or_repealed upper (link_text l)
   \<Longrightarrow> site_url @ href l \<in> link_targets upper site"
  unfolding link_targets_def by blast

lemma targets_inv_scrape:
  "targets_inv upper site s \<Longrightarrow> url \<in> link_targets upper site
     \<Longrightarrow> targets_inv upper site (scrape_branch upper site url path continue_from s)"
  "targets_inv upper site s \<Longrightarrow> \<exists>all_links. site url = Branch all_links \<and> set links \<subseteq> set all_links
     \<Longrightarrow> targets_inv upper site (scrape_links upper site url path continue_from start_idx i links s)"
proof (induction upper site url path continue_from s and upper site url path continue_from start_idx i links s
       rule: scrape_branch_scrape_links.induct)
  case (1 upper site url path continue_from s)
  show ?case
  proof (cases "url \<in> visited_urls s")
    case True
    with 1(2) show ?thesis by (simp add: scrape_branch_visited)
  next
    case False
    note v = targets_inv_visit[OF 1(2) 1(3)]
    show ?thesis
    proof (cases "site url")
      case Fetch_failed
      show ?thesis
        unfolding scrape_branch_failed[where site = site and url = url, OF False Fetch_failed]
        by (rule v(4))
    next
      case (Branch links)
      have "\<exists>all_links. site url = Branch all_links \<and> set links \<subseteq> set all_links"
        using Branch by simp
      from 1(1)[OF False refl Branch v(1) this]
      show ?thesis
        unfolding scrape_branch_branch[where site = site and url = url, OF False Branch] .
    next
      case Leaf
      show ?thesis
        unfolding scrape_branch_leaf[where site = site and url = url, OF False Leaf]
        using v(1) v(2) by simp
    next
      case Broken_leaf
      show ?thesis
        unfolding scrape_branch_broken_leaf[where site = site and url = url, OF False Broken_leaf]
        using v(1) v(3) by simp
    qed
  qed
next
  case (2 upper site url path continue_from start_idx i s)
  then show ?case by simp
next
  case (3 upper site url path continue_from start_idx i l ls s)
  note inv = 3(6)
  from 3(7) obtain all_links where al: "site url = Branch all_links" "l \<in> set all_links"
    "set ls \<subseteq> set all_links" by auto
  then have rest: "\<exists>all_links. site url = Branch all_links \<and> set ls \<subseteq> set all_links" by blast
  consider (skip) "int i < start_idx"
    | (excl) "\<not> int i < start_idx" "is_reserved_or_repealed upper (link_text l)"
    | (malf) "\<not> int i < start_idx" "\<not> is_reserved_or_repealed upper (link_text l)" "malformed_href (href l)"
    | (deep) "\<not> int i < start_idx" "\<not> is_reserved_or_repealed upper (link_text l)" "\<not> malformed_href (href l)"
        "20 \<le> length path"
    | (rec) "\<not> int i < start_idx" "\<not> is_reserved_or_repealed upper (link_text l)" "\<not> malformed_href (href l)"
        "\<not> 20 \<le> length path"
    by blast
  then show ?case
  proof cases
    case skip
    with 3(1)[OF skip inv rest] show ?thesis by simp
  next
    case excl
    with 3(2)[OF excl inv rest] show ?thesis by simp
  next
    case malf
    have "targets_inv upper site (s\<lparr>warnings := warnings s @ [Malformed_url (site_url @ href l)]\<rparr>)"
      using inv by (simp add: targets_inv_warn)
    from 3(3)[OF malf this rest] malf show ?thesis by simp
  next
    case deep
    with inv show ?thesis by (simp add: targets_inv_warn)
  next
    case rec
    have t: "site_url @ href l \<in> link_targets upper site"
      using al(1,2) rec(2) by (rule link_targetsI)
    from 3(5)[OF rec 3(4)[OF rec inv t] rest] rec show ?thesis by simp
  qed
qed

lemma targets_inv_worker:
  assumes "site u = Branch all_links"
  shows "targets_inv upper site s \<Longrightarrow> set links \<subseteq> set all_links
     \<Longrightarrow> \<forall>l \<in> set links. \<not> is_reserved_or_repealed upper (link_text l)
     \<Longrightarrow> targets_inv upper site (worker upper site (enqueue start_branch_idx continue_from i links) s)"
proof (induction links arbitrary: i s)
  case Nil
  then show ?case by simp
next
  case (Cons l ls)
  have t: "site_url @ href l \<in> link_targets upper site"
    using assms Cons.prems(2,3) by (intro link_targetsI[of site u all_links]) auto
  show ?case
  proof (cases "int i < start_branch_idx")
    case True
    with Cons show ?thesis by simp
  next
    case False
    let ?cf = "if int i = start_branch_idx \<and> truthy continue_from then continue_from else None"
    have "targets_inv upper site (scrape_branch upper site (site_url @ href l) [int i] ?cf s)"
      using Cons.prems(1) t by (rule targets_inv_scrape(1))
    from Cons.IH[OF this] Cons.prems(2,3) False show ?thesis by simp
  qed
qed

lemma targets_inv_crawl: "targets_inv upper site (crawl upper site state_init_url continue_from)"
proof (cases "site state_init_url")
  case (Branch all_links)
  let ?s0 = "initial_state\<lparr>fetch_log := [(By_collect, state_init_url)]\<rparr>"
  let ?links = "filter (\<lambda>l. \<not> is_reserved_or_repealed upper (link_text l)) all_links"
  have s0: "targets_inv upper site ?s0"
    by (simp add: targets_inv_def initial_state_def)
  have "targets_inv upper site (worker upper site (enqueue sbi continue_from 0 ?links) ?s0)" for sbi
    using Branch s0 by (rule targets_inv_worker) auto
  then show ?thesis using Branch by (simp add: crawl_def Let_def)
qed (simp_all add: crawl_def targets_inv_def initial_state_def)

lemma visited_mono:
  "visited_urls s \<subseteq> visited_urls (scrape_branch upper site url path continue_from s)
     \<and> url \<in> visited_urls (scrape_branch upper site url path continue_from s)"
  "visited_urls s \<subseteq> visited_urls (scrape_links upper site url path continue_from start_idx i links s)"
proof (induction upper site url path continue_from s and upper site url path continue_from start_idx i links s
       rule: scrape_branch_scrape_links.induct)
  case (1 upper site url path continue_from s)
  show ?case
  proof (cases "url \<in> visited_urls s")
    case True
    then show ?thesis by (simp add: scrape_branch_visited)
  next
    case False
    show ?thesis
    proof (cases "site url")
      case Fetch_failed
      show ?thesis
        unfolding scrape_branch_failed[where site = site and url = url, OF False Fetch_failed]
        by auto
    next
      case (Branch links)
      from 1[OF False refl Branch]
      show ?thesis
        unfolding scrape_branch_branch[where site = site and url = url, OF False Branch] by auto
    next
      case Leaf
      show ?thesis
        unfolding scrape_branch_leaf[where site = site and url = url, OF False Leaf]
        by auto
    next
      case Broken_leaf
      show ?thesis
        unfolding scrape_branch_broken_leaf[where site = site and url = url, OF False Broken_leaf]
        by auto
    qed
  qed
next
  case (2 upper site url path continue_from start_idx i s)
  then show ?case by simp
next
  case (3 upper site url path continue_from start_idx i l ls s)
  consider (skip) "int i < start_idx"
    | (excl) "\<not> int i < start_idx" "is_reserved_or_repealed upper (link_text l)"
    | (malf) "\<not> int i < start_idx" "\<not> is_reserved_or_repealed upper (link_text l)" "malformed_href (href l)"
    | (deep) "\<not> int i < start_idx" "\<not> is_reserved_or_repealed upper (link_text l)" "\<not> malformed_href (href l)"
        "20 \<le> length path"
    | (rec) "\<not> int i < start_idx" "\<not> is_reserved_or_repealed upper (link_text l)" "\<not> malformed_href (href l)"
        "\<not> 20 \<le> length path"
    by blast
  then show ?case
  proof cases
    case skip
    with 3(1)[OF skip] show ?thesis by simp
  next
    case excl
    with 3(2)[OF excl] show ?thesis by simp
  next
    case malf
    from 3(3)[OF malf] malf show ?thesis by simp
  next
    case deep
    then show ?thesis by simp
  next
    case rec
    from 3(4)[OF rec] 3(5)[OF rec] rec show ?thesis by auto
  qed
qed

lemma followed_visited:
  assumes "followed upper start_idx i l" and "length path < 20"
  shows "site_url @ href l
           \<in> visited_urls (scrape_links upper site url path continue_from start_idx i (l # ls) s)"
proof -
  let ?s1 = "scrape_branch upper site (site_url @ href l) (path @ [int i])
               (if truthy continue_from \<and> start_idx < int i then None else continue_from) s"
  have "site_url @ href l \<in> visited_urls ?s1"
    using visited_mono(1) by blast
  moreover have "visited_urls ?s1
      \<subseteq> visited_urls (scrape_links upper site url path continue_from start_idx (Suc i) ls ?s1)"
    by (rule visited_mono(2))
  ultimately show ?thesis using assms by (auto simp: followed_def)
qed


lemma bare_repealed_full:
  "crawl ascii_upper bare_repealed_site montana None =
   \<lparr>visited_urls = {''https://regulations.justia.com/c7/''},
    jsonl = [\<lparr>reg_url = ''https://regulations.justia.com/c7/'', lex_path = [0]\<rparr>],
    failed_log = [], warnings = [],
    fetch_log =
      [(By_collect, ''https://regulations.justia.com/states/montana/''),
       (By_scrape_branch, ''https://regulations.justia.com/c7/''),
       (By_process_leaf, ''https://regulations.justia.com/c7/'')]\<rparr>"
  by code_simp

lemma bare_repealed_text:
  "sublist ''REPEALED'' (ascii_upper ''Chapter 7 Repealed'')"
  "\<not> is_reserved_or_repealed ascii_upper ''Chapter 7 Repealed''"
  by code_simp+

lemma chapter_5_excluded: "is_reserved_or_repealed ascii_upper ''Chapter 5 (Repealed)''"
  by code_simp

text \<open>
  C2 as stated fails: the text \<^verbatim>\<open>Chapter 7 Repealed\<close> (ASCII, upper-cased to
  \<^verbatim>\<open>CHAPTER 7 REPEALED\<close>) contains \<^verbatim>\<open>repealed\<close> in bare form, yet the predicate is false
  on it and the crawl fetches the node and writes its record.
\<close>

theorem bare_repealed_counterexample:
  "sublist ''REPEALED'' (ascii_upper ''Chapter 7 Repealed'')
   \<and> \<not> is_reserved_or_repealed ascii_upper ''Chapter 7 Repealed''
   \<and> bare_repealed_site montana = Branch [\<lparr>link_text = ''Chapter 7 Repealed'', href = ''/c7/''\<rparr>]
   \<and> fetch_log (crawl ascii_upper bare_repealed_site montana None) =
       [(By_collect, ''https://regulations.justia.com/states/montana/''),
        (By_scrape_branch, ''https://regulations.justia.com/c7/''),
        (By_process_leaf, ''https://regulations.justia.com/c7/'')]
   \<and> jsonl (crawl ascii_upper bare_repealed_site montana None) =
       [\<lparr>reg_url = ''https://regulations.justia.com/c7/'', lex_path = [0]\<rparr>]"
  using bare_repealed_text by (simp add: bare_repealed_full bare_repealed_site_def)

text \<open>
  C2, amended. A link is excluded iff its text, upper-cased by \<^verbatim>\<open>str.upper()\<close> (the
  parameter \<open>upper\<close>, whatever it does outside ASCII), contains \<^verbatim>\<open>(REPEALED)\<close> or
  \<^verbatim>\<open>RESERVED\<close>: \<^verbatim>\<open>reserved\<close> in bare or parenthesised form, \<^verbatim>\<open>repealed\<close> only in
  parentheses. The loop passes over an excluded link without any effect, and visits
  the target of a link that it skips for none of its three reasons above the depth
  ceiling. Every URL that a crawl fetches below the index page, writes to the output
  or writes to the failure log is the target of a link that is not excluded: a node
  that only excluded links name is never fetched and never written.
\<close>

theorem exclusion_predicate:
  "(is_reserved_or_repealed upper t \<longleftrightarrow>
      sublist ''(REPEALED)'' (upper t) \<or> sublist ''RESERVED'' (upper t))
   \<and> (is_reserved_or_repealed upper (link_text l) \<longrightarrow>
        scrape_links upper site url path continue_from start_idx i (l # ls) s =
        scrape_links upper site url path continue_from start_idx (Suc i) ls s)
   \<and> (followed upper start_idx i l \<and> length path < 20 \<longrightarrow>
        site_url @ href l
          \<in> visited_urls (scrape_links upper site url path continue_from start_idx i (l # ls) s))
   \<and> (\<forall>u. (By_scrape_branch, u) \<in> set (fetch_log (crawl upper site state_init_url top_continue_from))
          \<or> (By_process_leaf, u) \<in> set (fetch_log (crawl upper site state_init_url top_continue_from))
          \<or> u \<in> reg_url ` set (jsonl (crawl upper site state_init_url top_continue_from))
          \<or> u \<in> failure_url ` set (failed_log (crawl upper site state_init_url top_continue_from))
          \<longrightarrow> u \<in> link_targets upper site)"
proof (intro conjI impI allI)
  show "is_reserved_or_repealed upper t \<longleftrightarrow>
      sublist ''(REPEALED)'' (upper t) \<or> sublist ''RESERVED'' (upper t)"
    by (rule is_reserved_or_repealed_iff)
next
  assume "is_reserved_or_repealed upper (link_text l)"
  then show "scrape_links upper site url path continue_from start_idx i (l # ls) s =
        scrape_links upper site url path continue_from start_idx (Suc i) ls s"
    by simp
next
  assume "followed upper start_idx i l \<and> length path < 20"
  then have "followed upper start_idx i l" and "length path < 20"
    by blast+
  then show "site_url @ href l
          \<in> visited_urls (scrape_links upper site url path continue_from start_idx i (l # ls) s)"
    by (rule followed_visited)
next
  fix u
  let ?s = "crawl upper site state_init_url top_continue_from"
  assume a: "(By_scrape_branch, u) \<in> set (fetch_log ?s) \<or> (By_process_leaf, u) \<in> set (fetch_log ?s)
          \<or> u \<in> reg_url ` set (jsonl ?s) \<or> u \<in> failure_url ` set (failed_log ?s)"
  have "targets_inv upper site ?s" by (rule targets_inv_crawl)
  with a show "u \<in> link_targets upper site"
    unfolding targets_inv_def by blast
qed

text \<open>
  The example site: the title page is fetched and is the target of a link that is
  not excluded; the chapter whose text is \<^verbatim>\<open>Chapter 5 (Repealed)\<close> is excluded and is
  neither fetched nor written.
\<close>

theorem exclusion_predicate_witness:
  "(By_scrape_branch, ''https://regulations.justia.com/t3/'')
      \<in> set (fetch_log (crawl ascii_upper demo_site montana None))
   \<and> ''https://regulations.justia.com/t3/'' \<in> link_targets ascii_upper demo_site
   \<and> is_reserved_or_repealed ascii_upper ''Chapter 5 (Repealed)''
   \<and> (By_scrape_branch, ''https://regulations.justia.com/t3/c5/'')
      \<notin> set (fetch_log (crawl ascii_upper demo_site montana None))
   \<and> ''https://regulations.justia.com/t3/c5/''
      \<notin> reg_url ` set (jsonl (crawl ascii_upper demo_site montana None))
   \<and> failed_log (crawl ascii_upper demo_site montana None) = []"
proof -
  have f: "(By_scrape_branch, ''https://regulations.justia.com/t3/'')
      \<in> set (fetch_log (crawl ascii_upper demo_site montana None))"
    by (simp add: demo_full)
  have n: "(By_scrape_branch, ''https://regulations.justia.com/t3/c5/'')
      \<notin> set (fetch_log (crawl ascii_upper demo_site montana None))
    \<and> ''https://regulations.justia.com/t3/c5/''
      \<notin> reg_url ` set (jsonl (crawl ascii_upper demo_site montana None))
    \<and> failed_log (crawl ascii_upper demo_site montana None) = []"
    by (simp add: demo_full)
  from exclusion_predicate [where upper = ascii_upper and site = demo_site and state_init_url = montana
         and top_continue_from = None] f
  have "''https://regulations.justia.com/t3/'' \<in> link_targets ascii_upper demo_site"
    by blast
  with f n chapter_5_excluded show ?thesis by blast
qed

subsection \<open>Malformed links at the top level\<close>

text \<open>
  C10 fails at the top level. The href \<^verbatim>\<open>/t1//\<close> ends in a doubled slash, the
  verifier leaves the link out of its sections, yet \<^verbatim>\<open>collect_regulations_for_state\<close>
  enqueues it: the URL is fetched, no warning is printed, and a record is written.
\<close>

theorem top_level_malformed_fetched:
  "malformed_href ''/t1//''
   \<and> get_top_level_sections ascii_upper doubled_slash_site montana = []
   \<and> crawl ascii_upper doubled_slash_site montana None =
      \<lparr>visited_urls = {''https://regulations.justia.com/t1//''},
       jsonl = [\<lparr>reg_url = ''https://regulations.justia.com/t1//'', lex_path = [0]\<rparr>],
       failed_log = [], warnings = [],
       fetch_log =
         [(By_collect, ''https://regulations.justia.com/states/montana/''),
          (By_scrape_branch, ''https://regulations.justia.com/t1//''),
          (By_process_leaf, ''https://regulations.justia.com/t1//'')]\<rparr>"
  by code_simp

subsection \<open>The scraper and the verifier\<close>

text \<open>
  C3 fails on a site with a reserved title before a regulation. The crawl is complete
  and without failure, and writes the regulation at LexPath \<open>[0]\<close>: the top-level links
  are numbered after the exclusion filter. The verifier numbers them before it and
  looks for the section's records under index 1, finds none, and reports the
  regulation missing and the section incomplete.
\<close>

theorem verifier_disagrees:
  "failed_log (crawl ascii_upper reserved_first_site montana None) = []
   \<and> jsonl (crawl ascii_upper reserved_first_site montana None) =
       [\<lparr>reg_url = ''https://regulations.justia.com/t2/'', lex_path = [0]\<rparr>]
   \<and> get_top_level_sections ascii_upper reserved_first_site montana =
       [\<lparr>sec_name = ''Title 2'', sec_url = ''https://regulations.justia.com/t2/'',
         sec_index = 1\<rparr>]
   \<and> walk_section ascii_upper reserved_first_site ''https://regulations.justia.com/t2/'' [1]
       = [''https://regulations.justia.com/t2/'']
   \<and> validate_state ascii_upper reserved_first_site montana (jsonl (crawl ascii_upper reserved_first_site montana None))
       = [(False, [''https://regulations.justia.com/t2/''], [])]"
  by code_simp

subsection \<open>Resuming on a tree\<close>

lemma leaves_Nil: "leaves [] = []"
  by (simp add: leaves_def)

lemma leaves_Cons:
  "leaves ((u, p, b) # ns) = (if b then [\<lparr>reg_url = u, lex_path = p\<rparr>] else []) @ leaves ns"
  by (simp add: leaves_def)

lemma leaves_append: "leaves (a @ b) = leaves a @ leaves b"
  by (simp add: leaves_def)

lemma leaves_node: "r \<in> set (leaves ns) \<Longrightarrow> (reg_url r, lex_path r, True) \<in> set ns"
  by (auto simp: leaves_def)

lemma hierarchy_branch:
  "site url = Branch links \<Longrightarrow>
   hierarchy upper site url path = (url, path, False) # hierarchy_links upper site path 0 links"
  by (simp add: hierarchy.simps)

lemma hierarchy_other:
  "site url = Fetch_failed \<Longrightarrow> hierarchy upper site url path = [(url, path, False)]"
  "site url = Broken_leaf \<Longrightarrow> hierarchy upper site url path = [(url, path, False)]"
  "site url = Leaf \<Longrightarrow> hierarchy upper site url path = [(url, path, True)]"
  by (simp_all add: hierarchy.simps)

lemma hierarchy_paths:
  "n \<in> set (hierarchy upper site url path) \<Longrightarrow> prefix path (fst (snd n))"
  "n \<in> set (hierarchy_links upper site path i links) \<Longrightarrow> \<exists>j\<ge>i. prefix (path @ [int j]) (fst (snd n))"
proof (induction upper site url path and upper site path i links arbitrary: n and n
       rule: hierarchy_hierarchy_links.induct)
  case (1 upper site url path)
  show ?case
  proof (cases "site url")
    case (Branch links)
    with 1(2) consider "n = (url, path, False)" | "n \<in> set (hierarchy_links upper site path 0 links)"
      by (auto simp: hierarchy_branch)
    then show ?thesis
    proof cases
      case 1
      then show ?thesis by simp
    next
      case 2
      from "1.IH"[OF Branch 2] obtain j where "prefix (path @ [int j]) (fst (snd n))" by blast
      then show ?thesis by (rule append_prefixD)
    qed
  qed (use 1(2) in \<open>simp_all add: hierarchy_other\<close>)
next
  case (2 upper site path i)
  then show ?case by simp
next
  case (3 upper site path i l ls)
  show ?case
  proof (cases "is_reserved_or_repealed upper (link_text l) \<or> malformed_href (href l)")
    case True
    with 3(4) have "n \<in> set (hierarchy_links upper site path (Suc i) ls)" by simp
    from 3(1)[OF True this] show ?thesis by (meson Suc_leD)
  next
    case False
    show ?thesis
    proof (cases "20 \<le> length path")
      case True
      with False 3(4) show ?thesis by simp
    next
      case deep: False
      with False 3(4) consider "n \<in> set (hierarchy upper site (site_url @ href l) (path @ [int i]))"
        | "n \<in> set (hierarchy_links upper site path (Suc i) ls)" by auto
      then show ?thesis
      proof cases
        case 1
        from 3(2)[OF False deep 1] show ?thesis by blast
      next
        case 2
        from 3(3)[OF False deep 2] show ?thesis by (meson Suc_leD)
      qed
    qed
  qed
qed

lemma hierarchy_jobs_paths:
  "n \<in> set (hierarchy_jobs upper site i links) \<Longrightarrow> \<exists>j\<ge>i. prefix [int j] (fst (snd n))"
proof (induction links arbitrary: i)
  case Nil
  then show ?case by simp
next
  case (Cons l ls)
  from Cons.prems consider "n \<in> set (hierarchy upper site (site_url @ href l) [int i])"
    | "n \<in> set (hierarchy_jobs upper site (Suc i) ls)" by auto
  then show ?case
  proof cases
    case 1
    from hierarchy_paths(1)[OF 1] show ?thesis by blast
  next
    case 2
    from Cons.IH[OF 2] show ?thesis by (meson Suc_leD)
  qed
qed

lemma lexpath_less_irrefl: "\<not> lexpath_less c c"
  by (simp add: lexpath_less_iff_less)

lemma lexpath_less_asym: "lexpath_less p q \<Longrightarrow> \<not> lexpath_less q p"
  by (simp add: lexpath_less_iff_less)

lemma lexpath_less_common_prefix:
  "lexpath_less (path @ p) (path @ q) \<longleftrightarrow> lexpath_less p q"
  by (induction path) (simp_all add: lexpath_less_Cons)

lemma lexpath_less_siblings:
  assumes "prefix (path @ [a]) p" and "prefix (path @ [b]) q" and "a < b"
  shows "lexpath_less p q"
proof -
  from assms obtain p' q' where "p = path @ a # p'" "q = path @ b # q'"
    by (auto simp: prefix_def)
  with assms(3) show ?thesis
    by (simp add: lexpath_less_common_prefix lexpath_less_Cons)
qed

lemma prefix_next:
  assumes "prefix path c" and "length path < length c"
  shows "prefix (path @ [c ! length path]) c"
proof -
  from assms obtain r where c: "c = path @ r" by (auto simp: prefix_def)
  with assms(2) obtain x r' where "r = x # r'" by (cases r) auto
  with c show ?thesis by simp
qed

lemma prefix_snoc_nth:
  assumes "prefix (path @ [a]) c"
  shows "c ! length path = a" and "length path < length c" and "prefix path c"
proof -
  from assms obtain r where c: "c = path @ a # r" by (auto simp: prefix_def)
  then show "c ! length path = a" "length path < length c" "prefix path c" by simp_all
qed

lemma deep_links_visited:
  assumes "20 \<le> length path"
  shows "visited_urls (scrape_links upper site url path continue_from start_idx i links s) = visited_urls s"
    and "jsonl (scrape_links upper site url path continue_from start_idx i links s) = jsonl s"
proof -
  from deep_links[OF assms, of upper site url continue_from start_idx i links s]
  obtain ws where "scrape_links upper site url path continue_from start_idx i links s
       = s\<lparr>warnings := warnings s @ ws\<rparr>" by blast
  then show "visited_urls (scrape_links upper site url path continue_from start_idx i links s) = visited_urls s"
    and "jsonl (scrape_links upper site url path continue_from start_idx i links s) = jsonl s"
    by simp_all
qed

lemma hierarchy_links_rest:
  "length path < 20 \<Longrightarrow>
   set (hierarchy_links upper site path (Suc i) ls) \<subseteq> set (hierarchy_links upper site path i (l # ls))"
  by auto

lemma hierarchy_links_followed:
  "\<not> is_reserved_or_repealed upper (link_text l) \<Longrightarrow> \<not> malformed_href (href l) \<Longrightarrow> length path < 20 \<Longrightarrow>
   hierarchy_links upper site path i (l # ls) =
     hierarchy upper site (site_url @ href l) (path @ [int i]) @ hierarchy_links upper site path (Suc i) ls"
  by simp

lemma visited_bound:
  "visited_urls (scrape_branch upper site url path continue_from s)
     \<subseteq> visited_urls s \<union> fst ` set (hierarchy upper site url path)"
  "visited_urls (scrape_links upper site url path continue_from start_idx i links s)
     \<subseteq> visited_urls s \<union> fst ` set (hierarchy_links upper site path i links)"
proof (induction upper site url path continue_from s and upper site url path continue_from start_idx i links s
       rule: scrape_branch_scrape_links.induct)
  case (1 upper site url path continue_from s)
  show ?case
  proof (cases "url \<in> visited_urls s")
    case True
    then show ?thesis by (simp add: scrape_branch_visited)
  next
    case False
    show ?thesis
    proof (cases "site url")
      case Fetch_failed
      show ?thesis
        unfolding scrape_branch_failed[where site = site and url = url, OF False Fetch_failed]
        by (simp add: hierarchy_other(1)[where site = site and url = url, OF Fetch_failed])
    next
      case (Branch links)
      from 1[OF False refl Branch]
      show ?thesis
        unfolding scrape_branch_branch[where site = site and url = url, OF False Branch]
          hierarchy_branch[where site = site and url = url, OF Branch]
        by auto
    next
      case Leaf
      show ?thesis
        unfolding scrape_branch_leaf[where site = site and url = url, OF False Leaf]
        by (simp add: hierarchy_other(3)[where site = site and url = url, OF Leaf])
    next
      case Broken_leaf
      show ?thesis
        unfolding scrape_branch_broken_leaf[where site = site and url = url, OF False Broken_leaf]
        by (simp add: hierarchy_other(2)[where site = site and url = url, OF Broken_leaf])
    qed
  qed
next
  case (2 upper site url path continue_from start_idx i s)
  then show ?case by simp
next
  case (3 upper site url path continue_from start_idx i l ls s)
  show ?case
  proof (cases "20 \<le> length path")
    case True
    then show ?thesis by (simp only: deep_links_visited(1)) blast
  next
    case shallow: False
    then have len: "length path < 20" by simp
    note rest = hierarchy_links_rest[OF len, of upper site i ls l]
    consider (skip) "int i < start_idx"
      | (excl) "\<not> int i < start_idx" "is_reserved_or_repealed upper (link_text l)"
      | (malf) "\<not> int i < start_idx" "\<not> is_reserved_or_repealed upper (link_text l)" "malformed_href (href l)"
      | (rec) "\<not> int i < start_idx" "\<not> is_reserved_or_repealed upper (link_text l)" "\<not> malformed_href (href l)"
          "\<not> 20 \<le> length path"
      using shallow by blast
    then show ?thesis
    proof cases
      case skip
      have "scrape_links upper site url path continue_from start_idx i (l # ls) s
          = scrape_links upper site url path continue_from start_idx (Suc i) ls s"
        using skip by simp
      with 3(1)[OF skip] rest show ?thesis by (simp only:) blast
    next
      case excl
      have "scrape_links upper site url path continue_from start_idx i (l # ls) s
          = scrape_links upper site url path continue_from start_idx (Suc i) ls s"
        using excl by simp
      with 3(2)[OF excl] rest show ?thesis by (simp only:) blast
    next
      case malf
      have "scrape_links upper site url path continue_from start_idx i (l # ls) s
          = scrape_links upper site url path continue_from start_idx (Suc i) ls
              (s\<lparr>warnings := warnings s @ [Malformed_url (site_url @ href l)]\<rparr>)"
        using malf by simp
      moreover have "visited_urls (s\<lparr>warnings := warnings s @ [Malformed_url (site_url @ href l)]\<rparr>)
          = visited_urls s" by simp
      ultimately show ?thesis using 3(3)[OF malf] rest by (simp only:) blast
    next
      case rec
      let ?s1 = "scrape_branch upper site (site_url @ href l) (path @ [int i])
             (if truthy continue_from \<and> start_idx < int i then None else continue_from) s"
      have e: "scrape_links upper site url path continue_from start_idx i (l # ls) s
          = scrape_links upper site url path continue_from start_idx (Suc i) ls ?s1"
        using rec by simp
      have h: "hierarchy_links upper site path i (l # ls) =
          hierarchy upper site (site_url @ href l) (path @ [int i]) @ hierarchy_links upper site path (Suc i) ls"
        using rec len by simp
      have a: "visited_urls ?s1
          \<subseteq> visited_urls s \<union> fst ` set (hierarchy upper site (site_url @ href l) (path @ [int i]))"
        by (rule 3(4)[OF rec])
      have b: "visited_urls (scrape_links upper site url path continue_from start_idx (Suc i) ls ?s1)
          \<subseteq> visited_urls ?s1 \<union> fst ` set (hierarchy_links upper site path (Suc i) ls)"
        by (rule 3(5)[OF rec])
      from a b show ?thesis
        unfolding e h set_append image_Un by blast
    qed
  qed
qed

lemma fresh_appendD1: "fresh (a @ b) s \<Longrightarrow> fresh a s"
  by (auto simp: fresh_def)

lemma fresh_appendD2:
  assumes "fresh (a @ b) s" and "visited_urls s1 \<subseteq> visited_urls s \<union> fst ` set a"
  shows "fresh b s1"
proof -
  from assms(1) have d: "distinct (map fst b)" and x: "fst ` set a \<inter> fst ` set b = {}"
    and v: "fst ` set b \<inter> visited_urls s = {}"
    by (auto simp: fresh_def)
  from x v assms(2) have "fst ` set b \<inter> visited_urls s1 = {}" by blast
  with d show ?thesis by (simp add: fresh_def)
qed

lemma fresh_head: "fresh ((u, p, b) # ns) s \<Longrightarrow> u \<notin> visited_urls s"
  by (auto simp: fresh_def)

lemma fresh_tail:
  "fresh ((u, p, b) # ns) s \<Longrightarrow>
   fresh ns (s\<lparr>visited_urls := insert u (visited_urls s), fetch_log := f\<rparr>)"
  by (auto simp: fresh_def)

lemma fresh_warn: "fresh ns (s\<lparr>warnings := w\<rparr>) = fresh ns s"
  by (simp add: fresh_def)

lemma hierarchy_links_deep:
  "20 \<le> length path \<Longrightarrow> hierarchy_links upper site path i links = []"
  by (induction links arbitrary: i) simp_all

lemma start_index_falsy: "\<not> truthy continue_from \<Longrightarrow> start_index path continue_from = 0"
  by (auto simp: truthy_def start_index_def split: option.splits)

lemma crawl_full:
  "fresh (hierarchy upper site url path) s \<Longrightarrow> \<not> truthy continue_from \<Longrightarrow>
     jsonl (scrape_branch upper site url path continue_from s)
       = jsonl s @ leaves (hierarchy upper site url path)"
  "fresh (hierarchy_links upper site path i links) s \<Longrightarrow>
     (truthy continue_from \<longrightarrow> start_idx < int i) \<Longrightarrow> start_idx \<le> int i \<Longrightarrow>
     jsonl (scrape_links upper site url path continue_from start_idx i links s)
       = jsonl s @ leaves (hierarchy_links upper site path i links)"
proof (induction upper site url path continue_from s and upper site url path continue_from start_idx i links s
       rule: scrape_branch_scrape_links.induct)
  case (1 upper site url path continue_from s)
  note fr = 1(2) and falsy = 1(3)
  show ?case
  proof (cases "site url")
    case Fetch_failed
    note h = hierarchy_other(1)[where site = site and url = url, OF Fetch_failed]
    from fr have nv: "url \<notin> visited_urls s" unfolding h by (rule fresh_head)
    show ?thesis
      unfolding scrape_branch_failed[where site = site and url = url, OF nv Fetch_failed] h
      by (simp add: leaves_Cons leaves_Nil)
  next
    case (Branch links)
    note h = hierarchy_branch[where site = site and url = url, OF Branch]
    from fr have nv: "url \<notin> visited_urls s" unfolding h by (rule fresh_head)
    let ?s1 = "s\<lparr>visited_urls := insert url (visited_urls s),
                  fetch_log := fetch_log s @ [(By_scrape_branch, url)]\<rparr>"
    from fr have fr1: "fresh (hierarchy_links upper site path 0 links) ?s1"
      unfolding h by (rule fresh_tail)
    have st: "start_index path continue_from = 0"
      using falsy by (rule start_index_falsy)
    have "jsonl (scrape_links upper site url path continue_from (start_index path continue_from) 0 links ?s1)
        = jsonl ?s1 @ leaves (hierarchy_links upper site path 0 links)"
      using falsy st by (intro 1(1)[OF nv refl Branch fr1]) simp_all
    then show ?thesis
      unfolding scrape_branch_branch[where site = site and url = url, OF nv Branch] h
      by (simp add: leaves_Cons)
  next
    case Leaf
    note h = hierarchy_other(3)[where site = site and url = url, OF Leaf]
    from fr have nv: "url \<notin> visited_urls s" unfolding h by (rule fresh_head)
    show ?thesis
      unfolding scrape_branch_leaf[where site = site and url = url, OF nv Leaf] h
      using falsy by (simp add: leaves_Cons leaves_Nil)
  next
    case Broken_leaf
    note h = hierarchy_other(2)[where site = site and url = url, OF Broken_leaf]
    from fr have nv: "url \<notin> visited_urls s" unfolding h by (rule fresh_head)
    show ?thesis
      unfolding scrape_branch_broken_leaf[where site = site and url = url, OF nv Broken_leaf] h
      using falsy by (simp add: leaves_Cons leaves_Nil)
  qed
next
  case (2 upper site url path continue_from start_idx i s)
  then show ?case by (simp add: leaves_Nil)
next
  case (3 upper site url path continue_from start_idx i l ls s)
  note fr = 3(6) and tr = 3(7) and le = 3(8)
  show ?case
  proof (cases "20 \<le> length path")
    case True
    then show ?thesis
      by (simp only: deep_links_visited(2) hierarchy_links_deep leaves_Nil append_Nil2)
  next
    case shallow: False
    then have len: "length path < 20" by simp
    from le have ns: "\<not> int i < start_idx" by simp
    have tr': "truthy continue_from \<longrightarrow> start_idx < int (Suc i)"
      and le': "start_idx \<le> int (Suc i)"
      using tr le by auto
    consider (excl) "is_reserved_or_repealed upper (link_text l)"
      | (malf) "\<not> is_reserved_or_repealed upper (link_text l)" "malformed_href (href l)"
      | (rec) "\<not> is_reserved_or_repealed upper (link_text l)" "\<not> malformed_href (href l)"
      by blast
    then show ?thesis
    proof cases
      case excl
      have h: "hierarchy_links upper site path i (l # ls) = hierarchy_links upper site path (Suc i) ls"
        using excl by simp
      have e: "scrape_links upper site url path continue_from start_idx i (l # ls) s
          = scrape_links upper site url path continue_from start_idx (Suc i) ls s"
        using excl by simp
      from fr have "fresh (hierarchy_links upper site path (Suc i) ls) s" unfolding h .
      from 3(2)[OF ns excl this tr' le'] show ?thesis unfolding h e .
    next
      case malf
      let ?s1 = "s\<lparr>warnings := warnings s @ [Malformed_url (site_url @ href l)]\<rparr>"
      have h: "hierarchy_links upper site path i (l # ls) = hierarchy_links upper site path (Suc i) ls"
        using malf by simp
      have e: "scrape_links upper site url path continue_from start_idx i (l # ls) s
          = scrape_links upper site url path continue_from start_idx (Suc i) ls ?s1"
        using malf ns by simp
      from fr have "fresh (hierarchy_links upper site path (Suc i) ls) ?s1"
        unfolding h by (simp add: fresh_warn)
      from 3(3)[OF ns malf this tr' le'] show ?thesis unfolding h e by simp
    next
      case rec
      let ?cf = "if truthy continue_from \<and> start_idx < int i then None else continue_from"
      let ?s1 = "scrape_branch upper site (site_url @ href l) (path @ [int i]) ?cf s"
      have h: "hierarchy_links upper site path i (l # ls) =
          hierarchy upper site (site_url @ href l) (path @ [int i]) @ hierarchy_links upper site path (Suc i) ls"
        using rec len by simp
      have e: "scrape_links upper site url path continue_from start_idx i (l # ls) s
          = scrape_links upper site url path continue_from start_idx (Suc i) ls ?s1"
        using rec ns shallow by simp
      have falsy: "\<not> truthy ?cf"
        using tr by (auto simp: truthy_def)
      from fr have fr1: "fresh (hierarchy upper site (site_url @ href l) (path @ [int i])) s"
        unfolding h by (rule fresh_appendD1)
      have j1: "jsonl ?s1 = jsonl s @ leaves (hierarchy upper site (site_url @ href l) (path @ [int i]))"
        by (rule 3(4)[OF ns rec shallow fr1 falsy])
      have "visited_urls ?s1
          \<subseteq> visited_urls s \<union> fst ` set (hierarchy upper site (site_url @ href l) (path @ [int i]))"
        by (rule visited_bound(1))
      with fr have fr2: "fresh (hierarchy_links upper site path (Suc i) ls) ?s1"
        unfolding h by (rule fresh_appendD2)
      have j2: "jsonl (scrape_links upper site url path continue_from start_idx (Suc i) ls ?s1)
          = jsonl ?s1 @ leaves (hierarchy_links upper site path (Suc i) ls)"
        by (rule 3(5)[OF ns rec shallow fr2 tr' le'])
      show ?thesis unfolding h e j2 j1 by (simp add: leaves_append)
    qed
  qed
qed

lemma after_cursor_append: "after_cursor c (a @ b) = after_cursor c a @ after_cursor c b"
  by (simp add: after_cursor_def)

lemma after_cursor_none:
  "(\<And>r. r \<in> set rs \<Longrightarrow> lexpath_less (lex_path r) c) \<Longrightarrow> after_cursor c rs = []"
  unfolding after_cursor_def by (auto simp: filter_empty_conv dest: lexpath_less_asym)

lemma after_cursor_all:
  "(\<And>r. r \<in> set rs \<Longrightarrow> lexpath_less c (lex_path r)) \<Longrightarrow> after_cursor c rs = rs"
  unfolding after_cursor_def by (simp add: filter_id_conv)

lemma leaves_under:
  "r \<in> set (leaves (hierarchy upper site url path)) \<Longrightarrow> prefix path (lex_path r)"
  using hierarchy_paths(1)[OF leaves_node] by fastforce

lemma leaves_links_under:
  "r \<in> set (leaves (hierarchy_links upper site path i links))
     \<Longrightarrow> \<exists>j\<ge>i. prefix (path @ [int j]) (lex_path r)"
  using hierarchy_paths(2)[OF leaves_node] by fastforce

text \<open>Earlier siblings of the cursor's branch: nothing after the cursor.\<close>

lemma earlier_sibling:
  assumes "prefix path c" and "length path < length c" and "int i < c ! length path"
  shows "after_cursor c (leaves (hierarchy upper site u (path @ [int i]))) = []"
proof (rule after_cursor_none)
  fix r assume "r \<in> set (leaves (hierarchy upper site u (path @ [int i])))"
  then have "prefix (path @ [int i]) (lex_path r)" by (rule leaves_under)
  moreover have "prefix (path @ [c ! length path]) c"
    using assms(1,2) by (rule prefix_next)
  ultimately show "lexpath_less (lex_path r) c"
    using assms(3) by (rule lexpath_less_siblings)
qed

lemma later_siblings:
  assumes "prefix path c" and "length path < length c" and "c ! length path < int i"
  shows "after_cursor c (leaves (hierarchy_links upper site path i links))
           = leaves (hierarchy_links upper site path i links)"
proof (rule after_cursor_all)
  fix r assume "r \<in> set (leaves (hierarchy_links upper site path i links))"
  then obtain j where j: "j \<ge> i" "prefix (path @ [int j]) (lex_path r)"
    using leaves_links_under by blast
  have "prefix (path @ [c ! length path]) c"
    using assms(1,2) by (rule prefix_next)
  moreover from j(1) assms(3) have "c ! length path < int j" by simp
  ultimately show "lexpath_less c (lex_path r)"
    using j(2) by (intro lexpath_less_siblings[of path "c ! length path" c "int j"])
qed

lemma cursor_not_in_later:
  assumes "c \<in> lex_path ` set (leaves (hierarchy_links upper site path i links))"
  shows "int i \<le> c ! length path" and "length path < length c" and "prefix path c"
proof -
  from assms obtain r where "r \<in> set (leaves (hierarchy_links upper site path i links))" "lex_path r = c"
    by auto
  then obtain j where j: "j \<ge> i" "prefix (path @ [int j]) c"
    using leaves_links_under by blast
  from prefix_snoc_nth[OF j(2)] j(1)
  show "int i \<le> c ! length path" "length path < length c" "prefix path c" by simp_all
qed

lemma cursor_under:
  assumes "c \<in> lex_path ` set (leaves (hierarchy upper site u (path @ [a])))"
  shows "c ! length path = a"
proof -
  from assms obtain r where "r \<in> set (leaves (hierarchy upper site u (path @ [a])))" "lex_path r = c"
    by auto
  then have "prefix (path @ [a]) c" using leaves_under by blast
  then show ?thesis by (rule prefix_snoc_nth(1))
qed

lemma start_index_cursor:
  "c \<noteq> [] \<Longrightarrow> prefix path c \<Longrightarrow> length path < length c
     \<Longrightarrow> start_index path (Some c) = c ! length path"
  by (auto simp: start_index_def prefix_def)

lemma fresh_appendD2_same: "fresh (a @ b) s \<Longrightarrow> fresh b s"
  by (rule fresh_appendD2[where s = s and a = a]) auto

lemma cursor_in_append:
  assumes "c \<in> lex_path ` set (leaves (a @ b))"
  shows "c \<in> lex_path ` set (leaves a) \<or> c \<in> lex_path ` set (leaves b)"
  using assms by (auto simp: leaves_append)

lemma crawl_resume:
  "fresh (hierarchy upper site url path) s \<Longrightarrow> continue_from = Some c \<Longrightarrow> c \<noteq> [] \<Longrightarrow> prefix path c
     \<Longrightarrow> c \<in> lex_path ` set (leaves (hierarchy upper site url path))
     \<Longrightarrow> jsonl (scrape_branch upper site url path continue_from s)
           = jsonl s @ after_cursor c (leaves (hierarchy upper site url path))"
  "fresh (hierarchy_links upper site path i links) s \<Longrightarrow> continue_from = Some c \<Longrightarrow> c \<noteq> []
     \<Longrightarrow> start_idx = c ! length path
     \<Longrightarrow> c \<in> lex_path ` set (leaves (hierarchy_links upper site path i links))
     \<Longrightarrow> jsonl (scrape_links upper site url path continue_from start_idx i links s)
           = jsonl s @ after_cursor c (leaves (hierarchy_links upper site path i links))"
proof (induction upper site url path continue_from s and upper site url path continue_from start_idx i links s
       rule: scrape_branch_scrape_links.induct)
  case (1 upper site url path continue_from s)
  note fr = 1(2) and cf = 1(3) and cne = 1(4) and pre = 1(5) and cin = 1(6)
  from cf cne have tr: "truthy continue_from" by (simp add: truthy_def)
  show ?case
  proof (cases "site url")
    case Fetch_failed
    note h = hierarchy_other(1)[where site = site and url = url, OF Fetch_failed]
    from cin show ?thesis unfolding h by (simp add: leaves_Cons leaves_Nil)
  next
    case Broken_leaf
    note h = hierarchy_other(2)[where site = site and url = url, OF Broken_leaf]
    from cin show ?thesis unfolding h by (simp add: leaves_Cons leaves_Nil)
  next
    case Leaf
    note h = hierarchy_other(3)[where site = site and url = url, OF Leaf]
    from fr have nv: "url \<notin> visited_urls s" unfolding h by (rule fresh_head)
    from cin have pc: "path = c" unfolding h by (simp add: leaves_Cons leaves_Nil)
    have "after_cursor c [\<lparr>reg_url = url, lex_path = c\<rparr>] = []"
      by (simp add: after_cursor_def lexpath_less_irrefl)
    then show ?thesis
      unfolding scrape_branch_leaf[where site = site and url = url, OF nv Leaf] h
      using tr cf pc by (simp add: leaves_Cons leaves_Nil)
  next
    case (Branch links)
    note h = hierarchy_branch[where site = site and url = url, OF Branch]
    from fr have nv: "url \<notin> visited_urls s" unfolding h by (rule fresh_head)
    let ?s1 = "s\<lparr>visited_urls := insert url (visited_urls s),
                  fetch_log := fetch_log s @ [(By_scrape_branch, url)]\<rparr>"
    from fr have fr1: "fresh (hierarchy_links upper site path 0 links) ?s1"
      unfolding h by (rule fresh_tail)
    from cin have cin1: "c \<in> lex_path ` set (leaves (hierarchy_links upper site path 0 links))"
      unfolding h by (simp add: leaves_Cons)
    from cursor_not_in_later(2)[OF cin1] have len: "length path < length c" .
    have st: "start_index path continue_from = c ! length path"
      unfolding cf using cne pre len by (rule start_index_cursor)
    have "jsonl (scrape_links upper site url path continue_from (start_index path continue_from) 0 links ?s1)
        = jsonl ?s1 @ after_cursor c (leaves (hierarchy_links upper site path 0 links))"
      by (rule 1(1)[OF nv refl Branch fr1 cf cne st cin1])
    then show ?thesis
      unfolding scrape_branch_branch[where site = site and url = url, OF nv Branch] h
      by (simp add: leaves_Cons)
  qed
next
  case (2 upper site url path continue_from start_idx i s)
  then show ?case by (simp add: leaves_Nil)
next
  case (3 upper site url path continue_from start_idx i l ls s)
  note fr = 3(6) and cf = 3(7) and cne = 3(8) and st = 3(9) and cin = 3(10)
  from cf cne have tr: "truthy continue_from" by (simp add: truthy_def)
  note cur = cursor_not_in_later[OF cin]
  have shallow: "\<not> 20 \<le> length path"
  proof
    assume "20 \<le> length path"
    then have "hierarchy_links upper site path i (l # ls) = []" by (rule hierarchy_links_deep)
    with cin show False by (simp add: leaves_Nil)
  qed
  then have len: "length path < 20" by simp
  have later: "c \<notin> lex_path ` set (leaves (hierarchy_links upper site path (Suc i) ls))"
    if "int i = start_idx"
  proof
    assume "c \<in> lex_path ` set (leaves (hierarchy_links upper site path (Suc i) ls))"
    from cursor_not_in_later(1)[OF this] that st show False by simp
  qed
  show ?case
  proof (cases "is_reserved_or_repealed upper (link_text l) \<or> malformed_href (href l)")
    case True
    have h: "hierarchy_links upper site path i (l # ls) = hierarchy_links upper site path (Suc i) ls"
      using True by simp
    from cin have cin': "c \<in> lex_path ` set (leaves (hierarchy_links upper site path (Suc i) ls))"
      unfolding h .
    with later have ne: "int i \<noteq> start_idx" by blast
    with cur(1) st have skip: "int i < start_idx" by simp
    have e: "scrape_links upper site url path continue_from start_idx i (l # ls) s
        = scrape_links upper site url path continue_from start_idx (Suc i) ls s"
      using skip by simp
    from fr have fr': "fresh (hierarchy_links upper site path (Suc i) ls) s" unfolding h .
    from 3(1)[OF skip fr' cf cne st cin'] show ?thesis unfolding h e .
  next
    case False
    then have ex: "\<not> is_reserved_or_repealed upper (link_text l)" and ma: "\<not> malformed_href (href l)"
      by blast+
    have h: "hierarchy_links upper site path i (l # ls) =
        hierarchy upper site (site_url @ href l) (path @ [int i]) @ hierarchy_links upper site path (Suc i) ls"
      using ex ma len by simp
    show ?thesis
    proof (cases "int i < start_idx")
      case skip: True
      have e: "scrape_links upper site url path continue_from start_idx i (l # ls) s
          = scrape_links upper site url path continue_from start_idx (Suc i) ls s"
        using skip by simp
      from fr have fr': "fresh (hierarchy_links upper site path (Suc i) ls) s"
        unfolding h by (rule fresh_appendD2_same)
      have "c \<notin> lex_path ` set (leaves (hierarchy upper site (site_url @ href l) (path @ [int i])))"
      proof
        assume "c \<in> lex_path ` set (leaves (hierarchy upper site (site_url @ href l) (path @ [int i])))"
        from cursor_under[OF this] skip st show False by simp
      qed
      with cin have cin': "c \<in> lex_path ` set (leaves (hierarchy_links upper site path (Suc i) ls))"
        unfolding h using cursor_in_append by blast
      have early: "after_cursor c (leaves (hierarchy upper site (site_url @ href l) (path @ [int i]))) = []"
        using cur(3) cur(2) skip unfolding st by (rule earlier_sibling)
      from 3(1)[OF skip fr' cf cne st cin'] show ?thesis
        unfolding h e by (simp add: leaves_append after_cursor_append early)
    next
      case ns: False
      with cur(1) st have eq: "int i = start_idx" by simp
      let ?cf = "if truthy continue_from \<and> start_idx < int i then None else continue_from"
      let ?s1 = "scrape_branch upper site (site_url @ href l) (path @ [int i]) ?cf s"
      have cf': "?cf = Some c" using eq cf by simp
      have e: "scrape_links upper site url path continue_from start_idx i (l # ls) s
          = scrape_links upper site url path continue_from start_idx (Suc i) ls ?s1"
        using ns ex ma shallow by simp
      from cin later[OF eq]
      have cin1: "c \<in> lex_path ` set (leaves (hierarchy upper site (site_url @ href l) (path @ [int i])))"
        unfolding h using cursor_in_append by blast
      have pre1: "prefix (path @ [int i]) c"
        using prefix_next[OF cur(3) cur(2)] eq st by simp
      from fr have fr1: "fresh (hierarchy upper site (site_url @ href l) (path @ [int i])) s"
        unfolding h by (rule fresh_appendD1)
      have j1: "jsonl ?s1 = jsonl s
          @ after_cursor c (leaves (hierarchy upper site (site_url @ href l) (path @ [int i])))"
        by (rule 3(4)[OF ns ex ma shallow fr1 cf' cne pre1 cin1])
      have "visited_urls ?s1
          \<subseteq> visited_urls s \<union> fst ` set (hierarchy upper site (site_url @ href l) (path @ [int i]))"
        by (rule visited_bound(1))
      with fr have fr2: "fresh (hierarchy_links upper site path (Suc i) ls) ?s1"
        unfolding h by (rule fresh_appendD2)
      have j2: "jsonl (scrape_links upper site url path continue_from start_idx (Suc i) ls ?s1)
          = jsonl ?s1 @ leaves (hierarchy_links upper site path (Suc i) ls)"
        using eq by (intro crawl_full(2)[OF fr2]) simp_all
      have late: "after_cursor c (leaves (hierarchy_links upper site path (Suc i) ls))
          = leaves (hierarchy_links upper site path (Suc i) ls)"
        using cur(3) cur(2) by (rule later_siblings) (use eq st in simp)
      show ?thesis
        unfolding h e j2 j1 by (simp add: leaves_append after_cursor_append late)
    qed
  qed
qed

lemma leaves_jobs_under:
  "r \<in> set (leaves (hierarchy_jobs upper site i links)) \<Longrightarrow> \<exists>j\<ge>i. prefix [int j] (lex_path r)"
  using hierarchy_jobs_paths[OF leaves_node] by fastforce

lemma cursor_in_jobs:
  assumes "c \<in> lex_path ` set (leaves (hierarchy_jobs upper site i links))"
  shows "int i \<le> c ! 0" and "c \<noteq> []"
proof -
  from assms obtain r where "r \<in> set (leaves (hierarchy_jobs upper site i links))" "lex_path r = c"
    by auto
  then obtain j where j: "j \<ge> i" "prefix ([] @ [int j]) c"
    using leaves_jobs_under by fastforce
  from prefix_snoc_nth[OF j(2)] j(1) show "int i \<le> c ! 0" "c \<noteq> []" by auto
qed

lemma later_jobs:
  assumes "c \<noteq> []" and "c ! 0 < int i"
  shows "after_cursor c (leaves (hierarchy_jobs upper site i links)) = leaves (hierarchy_jobs upper site i links)"
proof (rule after_cursor_all)
  fix r assume "r \<in> set (leaves (hierarchy_jobs upper site i links))"
  then obtain j where j: "j \<ge> i" "prefix ([] @ [int j]) (lex_path r)"
    using leaves_jobs_under by fastforce
  have "prefix ([] @ [c ! length ([] :: int list)]) c"
    using assms(1) by (intro prefix_next) simp_all
  moreover from j(1) assms(2) have "c ! length ([] :: int list) < int j" by simp
  ultimately show "lexpath_less c (lex_path r)"
    using j(2) by (intro lexpath_less_siblings[of "[]" "c ! length ([] :: int list)" c "int j"])
qed

lemma worker_full:
  "fresh (hierarchy_jobs upper site i links) s \<Longrightarrow>
   (truthy continue_from \<longrightarrow> start_branch_idx < int i) \<Longrightarrow> start_branch_idx \<le> int i \<Longrightarrow>
   jsonl (worker upper site (enqueue start_branch_idx continue_from i links) s)
     = jsonl s @ leaves (hierarchy_jobs upper site i links)"
proof (induction links arbitrary: i s)
  case Nil
  then show ?case by (simp add: leaves_Nil)
next
  case (Cons l ls)
  let ?cf = "if int i = start_branch_idx \<and> truthy continue_from then continue_from else None"
  let ?s1 = "scrape_branch upper site (site_url @ href l) [int i] ?cf s"
  from Cons.prems(2) have falsy: "\<not> truthy ?cf" by (auto simp: truthy_def)
  from Cons.prems(3) have ns: "\<not> int i < start_branch_idx" by simp
  have h: "hierarchy_jobs upper site i (l # ls) =
      hierarchy upper site (site_url @ href l) [int i] @ hierarchy_jobs upper site (Suc i) ls" by simp
  have e: "worker upper site (enqueue start_branch_idx continue_from i (l # ls)) s
      = worker upper site (enqueue start_branch_idx continue_from (Suc i) ls) ?s1"
    using ns by simp
  from Cons.prems(1) have fr1: "fresh (hierarchy upper site (site_url @ href l) [int i]) s"
    unfolding h by (rule fresh_appendD1)
  have j1: "jsonl ?s1 = jsonl s @ leaves (hierarchy upper site (site_url @ href l) [int i])"
    using fr1 falsy by (rule crawl_full(1))
  have "visited_urls ?s1 \<subseteq> visited_urls s \<union> fst ` set (hierarchy upper site (site_url @ href l) [int i])"
    by (rule visited_bound(1))
  with Cons.prems(1) have fr2: "fresh (hierarchy_jobs upper site (Suc i) ls) ?s1"
    unfolding h by (rule fresh_appendD2)
  have j2: "jsonl (worker upper site (enqueue start_branch_idx continue_from (Suc i) ls) ?s1)
      = jsonl ?s1 @ leaves (hierarchy_jobs upper site (Suc i) ls)"
    using Cons.prems(2,3) by (intro Cons.IH[OF fr2]) auto
  show ?case unfolding h e j2 j1 by (simp add: leaves_append)
qed

lemma worker_resume:
  "fresh (hierarchy_jobs upper site i links) s \<Longrightarrow> continue_from = Some c \<Longrightarrow>
   start_branch_idx = c ! 0 \<Longrightarrow> c \<in> lex_path ` set (leaves (hierarchy_jobs upper site i links)) \<Longrightarrow>
   jsonl (worker upper site (enqueue start_branch_idx continue_from i links) s)
     = jsonl s @ after_cursor c (leaves (hierarchy_jobs upper site i links))"
proof (induction links arbitrary: i s)
  case Nil
  then show ?case by (simp add: leaves_Nil)
next
  case (Cons l ls)
  note fr = Cons.prems(1) and cf = Cons.prems(2) and st = Cons.prems(3) and cin = Cons.prems(4)
  note cur = cursor_in_jobs[OF cin]
  from cf cur(2) have tr: "truthy continue_from" by (simp add: truthy_def)
  have h: "hierarchy_jobs upper site i (l # ls) =
      hierarchy upper site (site_url @ href l) [int i] @ hierarchy_jobs upper site (Suc i) ls" by simp
  have p0: "prefix ([] :: int list) c" and l0: "length ([] :: int list) < length c"
    using cur(2) by simp_all
  show ?case
  proof (cases "int i < start_branch_idx")
    case skip: True
    have e: "worker upper site (enqueue start_branch_idx continue_from i (l # ls)) s
        = worker upper site (enqueue start_branch_idx continue_from (Suc i) ls) s"
      using skip by simp
    from fr have fr': "fresh (hierarchy_jobs upper site (Suc i) ls) s"
      unfolding h by (rule fresh_appendD2_same)
    have "c \<notin> lex_path ` set (leaves (hierarchy upper site (site_url @ href l) [int i]))"
    proof
      assume "c \<in> lex_path ` set (leaves (hierarchy upper site (site_url @ href l) [int i]))"
      then have "c \<in> lex_path ` set (leaves (hierarchy upper site (site_url @ href l) ([] @ [int i])))"
        by simp
      from cursor_under[OF this] skip st show False by simp
    qed
    with cin have cin': "c \<in> lex_path ` set (leaves (hierarchy_jobs upper site (Suc i) ls))"
      unfolding h using cursor_in_append by blast
    have "after_cursor c (leaves (hierarchy upper site (site_url @ href l) ([] @ [int i]))) = []"
      using p0 l0 by (rule earlier_sibling) (use skip st in simp)
    then have early: "after_cursor c (leaves (hierarchy upper site (site_url @ href l) [int i])) = []"
      by simp
    from Cons.IH[OF fr' cf st cin'] show ?thesis
      unfolding h e by (simp add: leaves_append after_cursor_append early)
  next
    case ns: False
    with cur(1) st have eq: "int i = start_branch_idx" by simp
    let ?cf = "if int i = start_branch_idx \<and> truthy continue_from then continue_from else None"
    let ?s1 = "scrape_branch upper site (site_url @ href l) [int i] ?cf s"
    have cf': "?cf = Some c" using eq cf tr by simp
    have e: "worker upper site (enqueue start_branch_idx continue_from i (l # ls)) s
        = worker upper site (enqueue start_branch_idx continue_from (Suc i) ls) ?s1"
      using ns by simp
    have "c \<notin> lex_path ` set (leaves (hierarchy_jobs upper site (Suc i) ls))"
    proof
      assume "c \<in> lex_path ` set (leaves (hierarchy_jobs upper site (Suc i) ls))"
      from cursor_in_jobs(1)[OF this] eq st show False by simp
    qed
    with cin have cin1: "c \<in> lex_path ` set (leaves (hierarchy upper site (site_url @ href l) [int i]))"
      unfolding h using cursor_in_append by blast
    have pre1: "prefix [int i] c"
      using prefix_next[OF p0 l0] eq st by simp
    from fr have fr1: "fresh (hierarchy upper site (site_url @ href l) [int i]) s"
      unfolding h by (rule fresh_appendD1)
    have j1: "jsonl ?s1 = jsonl s @ after_cursor c (leaves (hierarchy upper site (site_url @ href l) [int i]))"
      by (rule crawl_resume(1)[OF fr1 cf' cur(2) pre1 cin1])
    have "visited_urls ?s1 \<subseteq> visited_urls s \<union> fst ` set (hierarchy upper site (site_url @ href l) [int i])"
      by (rule visited_bound(1))
    with fr have fr2: "fresh (hierarchy_jobs upper site (Suc i) ls) ?s1"
      unfolding h by (rule fresh_appendD2)
    have j2: "jsonl (worker upper site (enqueue start_branch_idx continue_from (Suc i) ls) ?s1)
        = jsonl ?s1 @ leaves (hierarchy_jobs upper site (Suc i) ls)"
      using eq by (intro worker_full[OF fr2]) simp_all
    have late: "after_cursor c (leaves (hierarchy_jobs upper site (Suc i) ls))
        = leaves (hierarchy_jobs upper site (Suc i) ls)"
      using cur(2) by (rule later_jobs) (use eq st in simp)
    show ?thesis
      unfolding h e j2 j1 by (simp add: leaves_append after_cursor_append late)
  qed
qed

lemma crawl_full_tree:
  assumes "distinct (map fst (site_hierarchy upper site state_init_url))"
  shows "jsonl (crawl upper site state_init_url None) = leaves (site_hierarchy upper site state_init_url)"
proof (cases "site state_init_url")
  case (Branch all_links)
  let ?links = "filter (\<lambda>l. \<not> is_reserved_or_repealed upper (link_text l)) all_links"
  let ?s0 = "initial_state\<lparr>fetch_log := [(By_collect, state_init_url)]\<rparr>"
  have sh: "site_hierarchy upper site state_init_url = hierarchy_jobs upper site 0 ?links"
    using Branch by (simp add: site_hierarchy_def)
  have c: "crawl upper site state_init_url None = worker upper site (enqueue 0 None 0 ?links) ?s0"
    using Branch by (simp add: crawl_def Let_def)
  have fr: "fresh (hierarchy_jobs upper site 0 ?links) ?s0"
    using assms unfolding sh by (simp add: fresh_def initial_state_def)
  have "jsonl (worker upper site (enqueue 0 None 0 ?links) ?s0)
      = jsonl ?s0 @ leaves (hierarchy_jobs upper site 0 ?links)"
    using fr by (rule worker_full) (simp_all add: truthy_def)
  then show ?thesis unfolding c sh by (simp add: initial_state_def)
qed (simp_all add: crawl_def site_hierarchy_def initial_state_def leaves_Nil)

lemma crawl_resume_tree:
  assumes "distinct (map fst (site_hierarchy upper site state_init_url))"
    and "c \<in> lex_path ` set (leaves (site_hierarchy upper site state_init_url))"
  shows "jsonl (crawl upper site state_init_url (Some c))
           = after_cursor c (leaves (site_hierarchy upper site state_init_url))"
proof (cases "site state_init_url")
  case (Branch all_links)
  let ?links = "filter (\<lambda>l. \<not> is_reserved_or_repealed upper (link_text l)) all_links"
  let ?s0 = "initial_state\<lparr>fetch_log := [(By_collect, state_init_url)]\<rparr>"
  have sh: "site_hierarchy upper site state_init_url = hierarchy_jobs upper site 0 ?links"
    using Branch by (simp add: site_hierarchy_def)
  from assms(2) have cin: "c \<in> lex_path ` set (leaves (hierarchy_jobs upper site 0 ?links))"
    unfolding sh .
  from cursor_in_jobs(2)[OF cin] obtain c0 cs where cc: "c = c0 # cs" by (cases c) auto
  have c: "crawl upper site state_init_url (Some c) = worker upper site (enqueue (c ! 0) (Some c) 0 ?links) ?s0"
    using Branch cc by (simp add: crawl_def Let_def)
  have fr: "fresh (hierarchy_jobs upper site 0 ?links) ?s0"
    using assms(1) unfolding sh by (simp add: fresh_def initial_state_def)
  have "jsonl (worker upper site (enqueue (c ! 0) (Some c) 0 ?links) ?s0)
      = jsonl ?s0 @ after_cursor c (leaves (hierarchy_jobs upper site 0 ?links))"
    using fr refl refl cin by (rule worker_resume)
  then show ?thesis unfolding c sh by (simp add: initial_state_def)
qed (use assms(2) in \<open>simp_all add: site_hierarchy_def leaves_Nil\<close>)


lemma demo_tree: "distinct (map fst (site_hierarchy ascii_upper demo_site montana))"
  by code_simp

lemma demo_leaves:
  "leaves (site_hierarchy ascii_upper demo_site montana) =
     [\<lparr>reg_url = ''https://regulations.justia.com/t1/r1/'', lex_path = [0, 0]\<rparr>,
      \<lparr>reg_url = ''https://regulations.justia.com/t1/r2/'', lex_path = [0, 1]\<rparr>,
      \<lparr>reg_url = ''https://regulations.justia.com/t3/r9/'', lex_path = [1, 1]\<rparr>]"
  by code_simp

lemma alias_full:
  "jsonl (crawl ascii_upper alias_site montana None) =
     [\<lparr>reg_url = ''https://regulations.justia.com/x/'', lex_path = [0, 0]\<rparr>,
      \<lparr>reg_url = ''https://regulations.justia.com/y/'', lex_path = [0, 1]\<rparr>]"
  by code_simp

lemma alias_full_failed: "failed_log (crawl ascii_upper alias_site montana None) = []"
  by code_simp

lemma alias_resumed:
  "jsonl (crawl ascii_upper alias_site montana (Some [0, 1])) =
     [\<lparr>reg_url = ''https://regulations.justia.com/x/'', lex_path = [1, 0]\<rparr>]"
  by code_simp

lemma alias_resumed_failed:
  "failed_log (crawl ascii_upper alias_site montana (Some [0, 1])) = []"
  by code_simp

lemma alias_not_tree: "\<not> distinct (map fst (site_hierarchy ascii_upper alias_site montana))"
  by code_simp

text \<open>
  C1, as claimed, fails on a static site without failures on which a URL is linked
  twice. On \<open>alias_site\<close> the crawl without cursor writes \<^verbatim>\<open>/x/\<close> at \<open>[0, 0]\<close> and \<^verbatim>\<open>/y/\<close> at
  \<open>[0, 1]\<close>, and the second link to \<^verbatim>\<open>/x/\<close>, under Title 2, finds it visited. Resumed at
  \<open>[0, 1]\<close>, the crawl skips the first link to \<^verbatim>\<open>/x/\<close> without entering it into the
  visited set, and writes \<^verbatim>\<open>/x/\<close>, a leaf before the cursor, again at \<open>[1, 0]\<close>.
\<close>

theorem resume_repeats_shared_leaf:
  "jsonl (crawl ascii_upper alias_site montana None) =
     [\<lparr>reg_url = ''https://regulations.justia.com/x/'', lex_path = [0, 0]\<rparr>,
      \<lparr>reg_url = ''https://regulations.justia.com/y/'', lex_path = [0, 1]\<rparr>]
   \<and> failed_log (crawl ascii_upper alias_site montana None) = []
   \<and> lexpath_less [0, 0] [0, 1 :: int]
   \<and> jsonl (crawl ascii_upper alias_site montana (Some [0, 1])) =
       [\<lparr>reg_url = ''https://regulations.justia.com/x/'', lex_path = [1, 0]\<rparr>]
   \<and> failed_log (crawl ascii_upper alias_site montana (Some [0, 1])) = []
   \<and> jsonl (crawl ascii_upper alias_site montana (Some [0, 1]))
       \<noteq> filter (\<lambda>r. lexpath_less [0, 1] (lex_path r))
            (jsonl (crawl ascii_upper alias_site montana None))"
proof -
  have less: "lexpath_less [0, 0] [0, 1 :: int]"
    by (simp add: lexpath_less_Cons lexpath_less_Nil_left lexpath_less_Nil_right)
  have "filter (\<lambda>r. lexpath_less [0, 1] (lex_path r))
          (jsonl (crawl ascii_upper alias_site montana None)) = []"
    unfolding alias_full
    by (simp add: lexpath_less_Cons lexpath_less_Nil_left lexpath_less_Nil_right)
  then have "jsonl (crawl ascii_upper alias_site montana (Some [0, 1]))
       \<noteq> filter (\<lambda>r. lexpath_less [0, 1] (lex_path r))
            (jsonl (crawl ascii_upper alias_site montana None))"
    unfolding alias_resumed by simp
  with less alias_full alias_full_failed alias_resumed alias_resumed_failed
  show ?thesis by blast
qed

text \<open>
  C1, amended. The site is static (a function of the URL) and no URL is reached twice:
  the nodes that a crawl dispatches (\<open>site_hierarchy\<close>: through the links that are not
  excluded and not malformed, down to the depth ceiling) have pairwise different
  URLs. Then the crawl without cursor writes the leaves of the hierarchy in document
  order, and if the cursor \<open>c\<close> is the LexPath of one of these leaves, the crawl
  resumed at \<open>c\<close> writes exactly the leaves whose LexPath is strictly after \<open>c\<close>, in the
  same order: the leaf at \<open>c\<close> is not written again, no leaf before \<open>c\<close> is written,
  and every leaf after \<open>c\<close> is written. Fetch and parse failures need not be excluded.
\<close>

theorem resume_correctness:
  assumes "distinct (map fst (site_hierarchy upper site state_init_url))"
    and "c \<in> lex_path ` set (leaves (site_hierarchy upper site state_init_url))"
  shows "jsonl (crawl upper site state_init_url None)
           = leaves (site_hierarchy upper site state_init_url)
         \<and> jsonl (crawl upper site state_init_url (Some c))
           = filter (\<lambda>r. lexpath_less c (lex_path r))
               (leaves (site_hierarchy upper site state_init_url))
         \<and> c \<notin> lex_path ` set (jsonl (crawl upper site state_init_url (Some c)))
         \<and> (\<forall>r \<in> set (jsonl (crawl upper site state_init_url (Some c))). lexpath_less c (lex_path r))
         \<and> (\<forall>r \<in> set (leaves (site_hierarchy upper site state_init_url)).
               lexpath_less c (lex_path r) \<longrightarrow> r \<in> set (jsonl (crawl upper site state_init_url (Some c))))"
proof -
  have full: "jsonl (crawl upper site state_init_url None) = leaves (site_hierarchy upper site state_init_url)"
    using assms(1) by (rule crawl_full_tree)
  from assms have "jsonl (crawl upper site state_init_url (Some c))
      = after_cursor c (leaves (site_hierarchy upper site state_init_url))"
    by (rule crawl_resume_tree)
  then have eq: "jsonl (crawl upper site state_init_url (Some c))
      = filter (\<lambda>r. lexpath_less c (lex_path r)) (leaves (site_hierarchy upper site state_init_url))"
    unfolding after_cursor_def .
  moreover have "c \<notin> lex_path ` set (jsonl (crawl upper site state_init_url (Some c)))"
    unfolding eq using lexpath_less_irrefl[of c] by auto
  moreover have "\<forall>r \<in> set (jsonl (crawl upper site state_init_url (Some c))). lexpath_less c (lex_path r)"
    unfolding eq by simp
  moreover have "\<forall>r \<in> set (leaves (site_hierarchy upper site state_init_url)).
      lexpath_less c (lex_path r) \<longrightarrow> r \<in> set (jsonl (crawl upper site state_init_url (Some c)))"
    unfolding eq by simp
  ultimately show ?thesis using full by blast
qed

text \<open>
  The example site, whose leaves are at \<open>[0, 0]\<close>, \<open>[0, 1]\<close> and \<open>[1, 1]\<close>, resumed at
  \<open>[0, 1]\<close>, the second rule of the first title: only the rule of the third title is
  written.
\<close>

theorem resume_correctness_witness:
  "distinct (map fst (site_hierarchy ascii_upper demo_site montana))
   \<and> [0, 1] \<in> lex_path ` set (leaves (site_hierarchy ascii_upper demo_site montana))
   \<and> jsonl (crawl ascii_upper demo_site montana None) =
       [\<lparr>reg_url = ''https://regulations.justia.com/t1/r1/'', lex_path = [0, 0]\<rparr>,
        \<lparr>reg_url = ''https://regulations.justia.com/t1/r2/'', lex_path = [0, 1]\<rparr>,
        \<lparr>reg_url = ''https://regulations.justia.com/t3/r9/'', lex_path = [1, 1]\<rparr>]
   \<and> jsonl (crawl ascii_upper demo_site montana (Some [0, 1]))
       = [\<lparr>reg_url = ''https://regulations.justia.com/t3/r9/'', lex_path = [1, 1]\<rparr>]"
proof -
  have m: "[0, 1] \<in> lex_path ` set (leaves (site_hierarchy ascii_upper demo_site montana))"
    by (simp add: demo_leaves)
  note r = resume_correctness [OF demo_tree m]
  from r have "jsonl (crawl ascii_upper demo_site montana None)
      = leaves (site_hierarchy ascii_upper demo_site montana)"
    by (rule conjunct1)
  then have full: "jsonl (crawl ascii_upper demo_site montana None) =
       [\<lparr>reg_url = ''https://regulations.justia.com/t1/r1/'', lex_path = [0, 0]\<rparr>,
        \<lparr>reg_url = ''https://regulations.justia.com/t1/r2/'', lex_path = [0, 1]\<rparr>,
        \<lparr>reg_url = ''https://regulations.justia.com/t3/r9/'', lex_path = [1, 1]\<rparr>]"
    by (simp only: demo_leaves)
  from r have "jsonl (crawl ascii_upper demo_site montana (Some [0, 1]))
      = filter (\<lambda>r. lexpath_less [0, 1] (lex_path r))
          (leaves (site_hierarchy ascii_upper demo_site montana))"
    by (rule conjunct1[OF conjunct2])
  also have "\<dots> = [\<lparr>reg_url = ''https://regulations.justia.com/t3/r9/'', lex_path = [1, 1]\<rparr>]"
    unfolding demo_leaves
    by (simp add: lexpath_less_Cons lexpath_less_Nil_left lexpath_less_Nil_right)
  finally show ?thesis using demo_tree m full by blast
qed

end
